theory Spec2Isabelle
  imports Main
begin

section \<open>Characters\<close>

text \<open>
  Buffers are \<open>string\<close>s. The characters that the regular-expression classes of
  \<^verbatim>\<open>extension.ts\<close> single out are named here. Of the code points matched by
  JavaScript's \<^verbatim>\<open>\s\<close>, those that fit a \<open>char\<close> are tab, line feed, vertical
  tab, form feed, carriage return, space and the no-break space.
\<close>

definition DQ :: char where "DQ = CHR 0x22"
definition SQ :: char where "SQ = CHR 0x27"
definition BT :: char where "BT = CHR 0x60"
definition BS :: char where "BS = CHR 0x5C"

definition isSpace :: "char \<Rightarrow> bool" where
  "isSpace c = (c = CHR 0x09 \<or> c = CHR 0x0A \<or> c = CHR 0x0B \<or> c = CHR 0x0C
                \<or> c = CHR 0x0D \<or> c = CHR 0x20 \<or> c = CHR 0xA0)"

definition notSpace :: "char \<Rightarrow> bool" where
  "notSpace c = (\<not> isSpace c)"

section \<open>Token Processor: \<^verbatim>\<open>processClasses\<close>\<close>

text \<open>
  \<^verbatim>\<open>classString.split(/\s+/)\<close>: the fields between maximal runs of whitespace. A
  string without whitespace is its own single field (so the empty string gives one empty
  field), and leading or trailing whitespace gives an empty first or last field.
\<close>

function splitWs :: "string \<Rightarrow> string list" where
  "splitWs s =
     (case dropWhile notSpace s of
        [] \<Rightarrow> [s]
      | _ # r \<Rightarrow> takeWhile notSpace s # splitWs (dropWhile isSpace r))"
  by pat_completeness auto
termination
proof (relation "measure length")
  show "wf (measure length)" by simp
next
  fix s :: string and x r
  assume a: "dropWhile notSpace s = x # r"
  have "length (dropWhile isSpace r) \<le> length r"
    by (rule length_dropWhile_le)
  moreover have "length (x # r) \<le> length s"
    using length_dropWhile_le [of notSpace s] a by simp
  ultimately show "(dropWhile isSpace r, s) \<in> measure length"
    by simp
qed

declare splitWs.simps [simp del]

text \<open>\<^verbatim>\<open>parts.join(' ')\<close>.\<close>

fun joinSp :: "string list \<Rightarrow> string" where
  "joinSp [] = []"
| "joinSp [x] = x"
| "joinSp (x # y # zs) = x @ CHR 0x20 # joinSp (y # zs)"

text \<open>\<^verbatim>\<open>s.startsWith(p)\<close> and \<^verbatim>\<open>xs.includes(x)\<close>.\<close>

definition startsWith :: "string \<Rightarrow> string \<Rightarrow> bool" where
  "startsWith s p = (take (length p) s = p)"

definition includesStr :: "string list \<Rightarrow> string \<Rightarrow> bool" where
  "includesStr xs x = (x \<in> set xs)"

definition processClasses :: "string \<Rightarrow> string \<Rightarrow> string list \<Rightarrow> bool \<Rightarrow> string" where
  "processClasses classString pfx skipClasses addPrefix =
     (let classes = filter (\<lambda>c. length c > 0) (splitWs classString);
          processedClasses =
            map (\<lambda>className.
                   if className = [] then className
                   else if addPrefix then
                     (if startsWith className pfx then className
                      else if includesStr skipClasses className then className
                      else pfx @ className)
                   else
                     (if startsWith className pfx then drop (length pfx) className
                      else className))
                classes
      in joinSp processedClasses)"

subsection \<open>Reference definition of the Token Processor\<close>

text \<open>
  The specification's wording: a class token is a maximal run of non-whitespace
  characters; empty tokens do not exist; when adding, a token that starts with the prefix
  or is a member of the skip set is kept, any other gets the prefix; when removing, a
  leading prefix is stripped and the skip set plays no part; the tokens are joined by
  single spaces in their order.
\<close>

function tokensOf :: "string \<Rightarrow> string list" where
  "tokensOf s =
     (let s' = dropWhile isSpace s
      in if s' = [] then []
         else takeWhile notSpace s' # tokensOf (dropWhile notSpace s'))"
  by pat_completeness auto
termination
proof (relation "measure length")
  show "wf (measure length)" by simp
next
  fix s s' :: string
  assume a: "s' = dropWhile isSpace s" and b: "s' \<noteq> []"
  from b obtain c r where c: "s' = c # r" by (cases s') auto
  from a c have "dropWhile isSpace s = c # r" by simp
  then have "\<not> isSpace c"
    by (simp add: dropWhile_eq_Cons_conv)
  with c have "dropWhile notSpace s' = dropWhile notSpace r"
    by (simp add: notSpace_def)
  moreover have "length (dropWhile notSpace r) \<le> length r"
    by (rule length_dropWhile_le)
  moreover have "length s' \<le> length s"
    unfolding a by (rule length_dropWhile_le)
  ultimately show "(dropWhile notSpace s', s) \<in> measure length"
    using c by simp
qed

declare tokensOf.simps [simp del]

definition rewriteToken :: "string \<Rightarrow> string set \<Rightarrow> bool \<Rightarrow> string \<Rightarrow> string" where
  "rewriteToken pfx skipSet adding t =
     (if adding then (if startsWith t pfx \<or> t \<in> skipSet then t else pfx @ t)
      else (if startsWith t pfx then drop (length pfx) t else t))"

definition tokenProcessorSpec :: "string \<Rightarrow> string \<Rightarrow> string set \<Rightarrow> bool \<Rightarrow> string" where
  "tokenProcessorSpec classString pfx skipSet adding =
     joinSp (map (rewriteToken pfx skipSet adding) (tokensOf classString))"

section \<open>Quoted-String Scanner: \<^verbatim>\<open>replaceQuotedStringsIgnoringTemplates\<close>\<close>

text \<open>
  The inner \<^verbatim>\<open>while (j < input.length)\<close> loop, run on the text after an opening quote:
  it collects \<open>content\<close>, taking a backslash together with the character after it, and
  stops at the first unescaped \<open>quote\<close>. The result is the content and the text after
  the closing quote, or \<open>None\<close> when the input ends first (the test
  \<^verbatim>\<open>j < input.length && input[j] === quote\<close> fails).
\<close>

fun scanContent :: "char \<Rightarrow> string \<Rightarrow> string \<Rightarrow> (string \<times> string) option" where
  "scanContent quote content [] = None"
| "scanContent quote content (c # cs) =
     (if c = BS then
        (case cs of
           d # r \<Rightarrow> scanContent quote (content @ [c, d]) r
         | [] \<Rightarrow> scanContent quote (content @ [c]) [])
      else if c = quote then Some (content, cs)
      else scanContent quote (content @ [c]) cs)"

text \<open>
  The outer loop. Its state is the output so far, the \<open>inBacktick\<close> flag and the input
  from index \<open>i\<close> on.
\<close>

function rqLoop :: "(string \<Rightarrow> char \<Rightarrow> string) \<Rightarrow> string \<Rightarrow> bool \<Rightarrow> string \<Rightarrow> string" where
  "rqLoop replacer out inBacktick [] = out"
| "rqLoop replacer out inBacktick (ch # rest) =
     (if inBacktick then
        (if ch = BS \<and> rest \<noteq> [] then rqLoop replacer (out @ [ch, hd rest]) True (tl rest)
         else if ch = BT then rqLoop replacer (out @ [ch]) False rest
         else rqLoop replacer (out @ [ch]) True rest)
      else if ch = BT then rqLoop replacer (out @ [ch]) True rest
      else if ch = DQ \<or> ch = SQ then
        (case scanContent ch [] rest of
           Some (content, rest') \<Rightarrow>
             rqLoop replacer (out @ [ch] @ replacer content ch @ [ch]) False rest'
         | None \<Rightarrow> rqLoop replacer (out @ [ch]) False rest)
      else rqLoop replacer (out @ [ch]) False rest)"
  by pat_completeness auto
termination
proof (relation "measure (\<lambda>(replacer, out, inBacktick, input). length input)", goal_cases)
  case 1
  show ?case by simp
next
  case (2 replacer out inBacktick ch rest)
  then show ?case by (cases rest) auto
next
  case (7 replacer out inBacktick ch rest x2 x y)
  have shorter: "scanContent q acc s = Some (k, r) \<Longrightarrow> length r < length s" for q acc s k r
    by (induction q acc s rule: scanContent.induct) (auto split: if_splits list.splits)
  from 7 have "scanContent ch [] rest = Some (x, y)" by simp
  from shorter [OF this] show ?case by simp
qed auto

definition replaceQuotedStringsIgnoringTemplates ::
    "string \<Rightarrow> (string \<Rightarrow> char \<Rightarrow> string) \<Rightarrow> string" where
  "replaceQuotedStringsIgnoringTemplates input replacer = rqLoop replacer [] False input"

section \<open>Brace Matcher: \<^verbatim>\<open>findMatchingBrace\<close>\<close>

text \<open>
  The \<^verbatim>\<open>for\<close> loop, on the source from index \<open>i\<close> on. An escape inside a quote or a
  template does \<^verbatim>\<open>i++; continue\<close>, which together with the loop's own increment steps
  over the next character. The result is the index found, or \<open>-1\<close>.
\<close>

function fmbLoop :: "string \<Rightarrow> nat \<Rightarrow> int \<Rightarrow> bool \<Rightarrow> bool \<Rightarrow> bool \<Rightarrow> int" where
  "fmbLoop [] i depth inSingle inDouble inBacktick = - 1"
| "fmbLoop (ch # rest) i depth inSingle inDouble inBacktick =
     (if inSingle then
        (if ch = BS then fmbLoop (tl rest) (i + 2) depth inSingle inDouble inBacktick
         else if ch = SQ then fmbLoop rest (i + 1) depth False inDouble inBacktick
         else fmbLoop rest (i + 1) depth inSingle inDouble inBacktick)
      else if inDouble then
        (if ch = BS then fmbLoop (tl rest) (i + 2) depth inSingle inDouble inBacktick
         else if ch = DQ then fmbLoop rest (i + 1) depth inSingle False inBacktick
         else fmbLoop rest (i + 1) depth inSingle inDouble inBacktick)
      else if inBacktick then
        (if ch = BS then fmbLoop (tl rest) (i + 2) depth inSingle inDouble inBacktick
         else if ch = BT then fmbLoop rest (i + 1) depth inSingle inDouble False
         else fmbLoop rest (i + 1) depth inSingle inDouble inBacktick)
      else if ch = SQ then fmbLoop rest (i + 1) depth True inDouble inBacktick
      else if ch = DQ then fmbLoop rest (i + 1) depth inSingle True inBacktick
      else if ch = BT then fmbLoop rest (i + 1) depth inSingle inDouble True
      else if ch = CHR 0x7B then fmbLoop rest (i + 1) (depth + 1) inSingle inDouble inBacktick
      else if ch = CHR 0x7D then
        (if depth - 1 = 0 then int i
         else fmbLoop rest (i + 1) (depth - 1) inSingle inDouble inBacktick)
      else fmbLoop rest (i + 1) depth inSingle inDouble inBacktick)"
  by pat_completeness auto
termination
  by (relation "measure (\<lambda>(source, i, depth, inSingle, inDouble, inBacktick). length source)")
     auto

definition findMatchingBrace :: "string \<Rightarrow> nat \<Rightarrow> int" where
  "findMatchingBrace source openIndex =
     fmbLoop (drop openIndex source) openIndex 0 False False False"

subsection \<open>Reference definition of the Brace Matcher\<close>

text \<open>
  The specification's wording: a depth counter that starts at 0, goes up on an opening
  and down on a closing brace; three mutually exclusive string states in which braces do
  not count; a backslash inside any of them consumes the next character, whatever it is.
  The matching brace is the first position after the opening one where the depth is back
  at 0; there is none when the text ends before.
\<close>

datatype strState = Normal | InSingle | InDouble | InTemplate

type_synonym lexState = "strState \<times> bool \<times> int"

fun closerOf :: "strState \<Rightarrow> char" where
  "closerOf InSingle = SQ"
| "closerOf InDouble = DQ"
| "closerOf InTemplate = BT"
| "closerOf Normal = BT"

fun lexStep :: "lexState \<Rightarrow> char \<Rightarrow> lexState" where
  "lexStep (st, True, depth) c = (st, False, depth)"
| "lexStep (Normal, False, depth) c =
     (if c = SQ then (InSingle, False, depth)
      else if c = DQ then (InDouble, False, depth)
      else if c = BT then (InTemplate, False, depth)
      else if c = CHR 0x7B then (Normal, False, depth + 1)
      else if c = CHR 0x7D then (Normal, False, depth - 1)
      else (Normal, False, depth))"
| "lexStep (st, False, depth) c =
     (if c = BS then (st, True, depth)
      else if c = closerOf st then (Normal, False, depth)
      else (st, False, depth))"

definition depthAfter :: "string \<Rightarrow> nat \<Rightarrow> nat \<Rightarrow> int" where
  "depthAfter text openIndex j =
     snd (snd (foldl lexStep (Normal, False, 0) (take (Suc j - openIndex) (drop openIndex text))))"

definition matchingClose :: "string \<Rightarrow> nat \<Rightarrow> nat option" where
  "matchingClose text openIndex =
     List.find (\<lambda>j. depthAfter text openIndex j = 0) [Suc openIndex ..< length text]"

section \<open>Configuration and attribute patterns\<close>

record ClassPrefixerConfig =
  prefix :: string
  skipClasses :: "string list"
  autoFormat :: bool
  customPatterns :: "string list"
  useRegex :: bool
  customRegexPatterns :: "string list"

text \<open>
  The regular expressions that the code writes itself (the \<^verbatim>\<open>className\<close> literal and
  the expansions of wildcards) are modelled by what they match: an attribute-name
  expression is a function from the text at the current position to the lengths it can
  match there, in the order in which the backtracking matcher tries them.

  An expression that contains text supplied by the user is compiled by the host. The
  host's \<^verbatim>\<open>RegExp\<close> constructor is a parameter of the model. It maps the whole source
  text of an expression to \<open>None\<close> when that text is not a regular expression (the
  constructor throws a syntax error), and otherwise to its matcher: for a text and a
  position in it, whether the expression matches at that position, and if so the length
  of the match and capture group 1 (\<open>None\<close> when the group took no part in the match).
\<close>

type_synonym namerx = "string \<Rightarrow> nat list"
type_synonym rxmatch = "string \<Rightarrow> nat \<Rightarrow> (nat \<times> string option) option"
type_synonym engine = "string \<Rightarrow> rxmatch option"

datatype error = SyntaxError string | TypeError

datatype pattern = Builtin namerx | Compiled rxmatch

text \<open>The classes \<^verbatim>\<open>[\w$-]\<close> and \<^verbatim>\<open>["'`]\<close>.\<close>

definition isNameChar :: "char \<Rightarrow> bool" where
  "isNameChar c =
     (let n = (of_char c :: nat)
      in (48 \<le> n \<and> n \<le> 57) \<or> (65 \<le> n \<and> n \<le> 90) \<or> (97 \<le> n \<and> n \<le> 122)
         \<or> c = CHR 0x5F \<or> c = CHR 0x24 \<or> c = CHR 0x2D)"

definition isQuote :: "char \<Rightarrow> bool" where
  "isQuote c = (c = DQ \<or> c = SQ \<or> c = BT)"

definition notQuote :: "char \<Rightarrow> bool" where
  "notQuote c = (\<not> isQuote c)"

text \<open>\<^verbatim>\<open>Array.from(new Set(xs))\<close>: the first occurrence of each element, in order.\<close>

fun dedupBy :: "('a \<Rightarrow> 'b) \<Rightarrow> 'a list \<Rightarrow> 'a list" where
  "dedupBy key [] = []"
| "dedupBy key (x # xs) = x # dedupBy key (filter (\<lambda>y. key y \<noteq> key x) xs)"

text \<open>\<^verbatim>\<open>s.split('*')\<close> and \<^verbatim>\<open>parts.join(sep)\<close>.\<close>

fun splitChar :: "char \<Rightarrow> string \<Rightarrow> string list" where
  "splitChar sep [] = [[]]"
| "splitChar sep (c # cs) =
     (if c = sep then [] # splitChar sep cs
      else (case splitChar sep cs of f # fs \<Rightarrow> (c # f) # fs | [] \<Rightarrow> [[c]]))"

fun joinWith :: "string \<Rightarrow> string list \<Rightarrow> string" where
  "joinWith sep [] = []"
| "joinWith sep [x] = x"
| "joinWith sep (x # y # zs) = x @ sep @ joinWith sep (y # zs)"

text \<open>
  \<^verbatim>\<open>escapeRegExp\<close> puts a backslash before each character of its class, and
  \<^verbatim>\<open>toNameRegex\<close> joins the escaped pieces around each \<^verbatim>\<open>*\<close> with
  \<^verbatim>\<open>[\w$-]*\<close>. This is the source text of the expression.
\<close>

definition escapeRegExp :: "string \<Rightarrow> string" where
  "escapeRegExp s =
     concat (map (\<lambda>c. if c \<in> set (BS # ''^$.*+?()[`{}|'') then [BS, c] else [c]) s)"

definition toNameRegex :: "string \<Rightarrow> string" where
  "toNameRegex wild =
     joinWith (''['' @ [BS] @ ''w$-]*'') (map escapeRegExp (splitChar (CHR 0x2A) wild))"

text \<open>
  What the expressions match. A literal matches itself. The expression of a wildcard
  matches its first piece, then for each further piece a run of name characters, longest
  first, followed by the piece: each escaped piece matches exactly its own text.
\<close>

definition litRx :: "string \<Rightarrow> namerx" where
  "litRx lit s = (if startsWith s lit then [length lit] else [])"

fun wildRx :: "string list \<Rightarrow> namerx" where
  "wildRx [] s = [0]"
| "wildRx [seg] s = litRx seg s"
| "wildRx (seg # segs) s =
     (if startsWith s seg then
        (let s' = drop (length seg) s;
             run = length (takeWhile isNameChar s')
         in concat (map (\<lambda>k. map (\<lambda>n. length seg + k + n) (wildRx segs (drop k s')))
                        (rev [0..<Suc run])))
      else [])"

definition wildcardRx :: "string \<Rightarrow> namerx" where
  "wildcardRx wild = wildRx (splitChar (CHR 0x2A) wild)"

text \<open>
  The rest of a direct-value pattern after the attribute name,
  \<^verbatim>\<open>\s*=\s*["'`]([^"'`]*)["'`]\<close>: the length it matches and its capture group. The
  group cannot hold a quote character and must be followed by one, so the lazy
  \<^verbatim>\<open>*?\<close> of the \<^verbatim>\<open>className\<close> pattern and the greedy \<^verbatim>\<open>*\<close> of the others match
  the same text. The closing quote need not be the opening one.
\<close>

definition valueTail :: "string \<Rightarrow> (nat \<times> string) option" where
  "valueTail s =
     (case dropWhile isSpace s of
        [] \<Rightarrow> None
      | e # s2 \<Rightarrow>
          if e \<noteq> CHR 0x3D then None
          else (case dropWhile isSpace s2 of
                  [] \<Rightarrow> None
                | q # s4 \<Rightarrow>
                    if \<not> isQuote q then None
                    else (case dropWhile notQuote s4 of
                            [] \<Rightarrow> None
                          | q' # s6 \<Rightarrow>
                              Some (length (takeWhile isSpace s) + 1
                                      + length (takeWhile isSpace s2) + 1
                                      + length (takeWhile notQuote s4) + 1,
                                    takeWhile notQuote s4))))"

text \<open>The rest of the expression-opener pattern, \<^verbatim>\<open>\s*=\s*\{\<close>.\<close>

definition exprTail :: "string \<Rightarrow> nat option" where
  "exprTail s =
     (case dropWhile isSpace s of
        [] \<Rightarrow> None
      | e # s2 \<Rightarrow>
          if e \<noteq> CHR 0x3D then None
          else (case dropWhile isSpace s2 of
                  [] \<Rightarrow> None
                | b # s4 \<Rightarrow>
                    if b \<noteq> CHR 0x7B then None
                    else Some (length (takeWhile isSpace s) + 1
                                 + length (takeWhile isSpace s2) + 1)))"

fun firstSome :: "('a \<Rightarrow> 'b option) \<Rightarrow> 'a list \<Rightarrow> 'b option" where
  "firstSome f [] = None"
| "firstSome f (x # xs) = (case f x of Some y \<Rightarrow> Some y | None \<Rightarrow> firstSome f xs)"

text \<open>A match of a whole pattern at the start of \<open>s\<close>: the first name length after which
  the rest matches.\<close>

definition directMatchAt :: "namerx \<Rightarrow> string \<Rightarrow> (nat \<times> string) option" where
  "directMatchAt rx s =
     firstSome (\<lambda>n. map_option (\<lambda>(l, classes). (n + l, classes)) (valueTail (drop n s)))
       (rx s)"

definition startMatchAt :: "namerx list \<Rightarrow> string \<Rightarrow> nat option" where
  "startMatchAt alts s =
     firstSome (\<lambda>n. map_option (\<lambda>l. n + l) (exprTail (drop n s)))
       (concat (map (\<lambda>rx. rx s) alts))"

subsection \<open>\<^verbatim>\<open>buildPatternsFromCustom\<close>, \<^verbatim>\<open>buildPatterns\<close>, \<^verbatim>\<open>buildAttrNameAlternation\<close>\<close>

definition customNames :: "ClassPrefixerConfig \<Rightarrow> string list" where
  "customNames config =
     (if length (customPatterns config) \<noteq> 0 then customPatterns config else [''*ClassName''])"

definition buildPatternsFromCustom :: "ClassPrefixerConfig \<Rightarrow> pattern list" where
  "buildPatternsFromCustom config =
     map (\<lambda>wild. Builtin (wildcardRx wild)) (dedupBy id (customNames config))"

text \<open>
  The source text that \<^verbatim>\<open>buildPatterns\<close> hands to the constructor for a user
  fragment: \<^verbatim>\<open>(?:\<close>, the fragment, \<^verbatim>\<open>)\s*=\s*["'`]([^"'`]*)["'`]\<close>.
\<close>

definition directSource :: "string \<Rightarrow> string" where
  "directSource fragment =
     ''(?:'' @ fragment @ '')'' @ [BS] @ ''s*='' @ [BS] @ ''s*['' @ [DQ, SQ, BT]
       @ '']([^'' @ [DQ, SQ, BT] @ '']*)['' @ [DQ, SQ, BT] @ '']''"

text \<open>
  \<^verbatim>\<open>buildPatterns\<close> returns the direct-value patterns and the warnings it shows: a
  fragment whose pattern does not compile is caught, reported and left out.
\<close>

definition buildPatterns :: "engine \<Rightarrow> ClassPrefixerConfig \<Rightarrow> pattern list \<times> string list" where
  "buildPatterns RegExp config =
     (if useRegex config then
        (Builtin (litRx ''className'')
           # map Compiled
               (List.map_filter (\<lambda>fragment. RegExp (directSource fragment))
                  (customRegexPatterns config)),
         map (\<lambda>fragment. ''ClassPrefixer: Invalid regex pattern: '' @ fragment)
             (filter (\<lambda>fragment. RegExp (directSource fragment) = None)
                (customRegexPatterns config)))
      else (Builtin (litRx ''className'') # buildPatternsFromCustom config, []))"

text \<open>
  \<^verbatim>\<open>buildAttrNameAlternation\<close>: the parts are source texts, \<^verbatim>\<open>className\<close> first and
  then the non-empty user fragments as they are, or the expressions of the wildcards;
  duplicates are removed and the rest joined with \<^verbatim>\<open>|\<close> inside \<^verbatim>\<open>(?:...)\<close>.
\<close>

definition attrNameParts :: "ClassPrefixerConfig \<Rightarrow> string list" where
  "attrNameParts config =
     (let parts =
            ''className''
            # (if useRegex config then filter (\<lambda>p. p \<noteq> []) (customRegexPatterns config)
               else map toNameRegex (customNames config))
      in dedupBy id parts)"

definition buildAttrNameAlternation :: "ClassPrefixerConfig \<Rightarrow> string" where
  "buildAttrNameAlternation config = ''(?:'' @ joinWith ''|'' (attrNameParts config) @ '')''"

text \<open>
  The source text of \<^verbatim>\<open>startRe\<close>, \<^verbatim>\<open>`${attrAlt}\\s*=\\s*\\{`\<close>, which is compiled
  as one expression.
\<close>

definition startReSource :: "ClassPrefixerConfig \<Rightarrow> string" where
  "startReSource config =
     buildAttrNameAlternation config @ [BS] @ ''s*='' @ [BS] @ ''s*'' @ [BS] @ ''{''"

text \<open>
  Without \<open>useRegex\<close> the alternation holds only text that the code wrote, and what it
  matches is known: the alternatives, tried in order, are the matchers of its distinct
  parts.
\<close>

definition builtinAlternatives :: "ClassPrefixerConfig \<Rightarrow> namerx list" where
  "builtinAlternatives config =
     map snd
       (dedupBy fst
          ((''className'', litRx ''className'')
           # map (\<lambda>wild. (toNameRegex wild, wildcardRx wild)) (customNames config)))"

text \<open>
  \<^verbatim>\<open>new RegExp(`${attrAlt}\\s*=\\s*\\{`, 'g')\<close>: a matcher that gives, for a text
  and a position, the length of the match there; or the syntax error that the constructor
  throws. With \<open>useRegex\<close> the host compiles the joined source text.
\<close>

definition newStartRe ::
    "engine \<Rightarrow> ClassPrefixerConfig \<Rightarrow> error + (string \<Rightarrow> nat \<Rightarrow> nat option)" where
  "newStartRe RegExp config =
     (if useRegex config then
        (case RegExp (startReSource config) of
           None \<Rightarrow> Inl (SyntaxError (startReSource config))
         | Some rx \<Rightarrow> Inr (\<lambda>text i. map_option fst (rx text i)))
      else Inr (\<lambda>text i. startMatchAt (builtinAlternatives config) (drop i text)))"

section \<open>Rewrite Engine\<close>

text \<open>
  \<^verbatim>\<open>str.replace(pattern, replacement)\<close> with a string pattern and a string replacement:
  the first occurrence is replaced, and in the replacement \<^verbatim>\<open>$$\<close>, \<^verbatim>\<open>$&\<close>,
  \<^verbatim>\<open>$`\<close> and \<^verbatim>\<open>$'\<close> stand for a dollar sign, the matched text, the text before
  it and the text after it. There are no capture groups, so any other \<^verbatim>\<open>$\<close> stands
  for itself.
\<close>

fun indexOfStr :: "string \<Rightarrow> string \<Rightarrow> nat option" where
  "indexOfStr [] needle = (if needle = [] then Some 0 else None)"
| "indexOfStr (c # cs) needle =
     (if startsWith (c # cs) needle then Some 0 else map_option Suc (indexOfStr cs needle))"

fun getSubstitution :: "string \<Rightarrow> string \<Rightarrow> string \<Rightarrow> string \<Rightarrow> string" where
  "getSubstitution matched preceding following (c # d # r) =
     (if c = CHR 0x24 \<and> d = CHR 0x24 then CHR 0x24 # getSubstitution matched preceding following r
      else if c = CHR 0x24 \<and> d = CHR 0x26 then matched @ getSubstitution matched preceding following r
      else if c = CHR 0x24 \<and> d = BT then preceding @ getSubstitution matched preceding following r
      else if c = CHR 0x24 \<and> d = SQ then following @ getSubstitution matched preceding following r
      else c # getSubstitution matched preceding following (d # r))"
| "getSubstitution matched preceding following r = r"

definition strReplace :: "string \<Rightarrow> string \<Rightarrow> string \<Rightarrow> string" where
  "strReplace s pat replacement =
     (case indexOfStr s pat of
        None \<Rightarrow> s
      | Some k \<Rightarrow>
          take k s
          @ getSubstitution pat (take k s) (drop (k + length pat) s) replacement
          @ drop (k + length pat) s)"

text \<open>
  \<^verbatim>\<open>result.replace(pattern, (match, classes) => ...)\<close> with a global pattern: every
  match, left to right, each search resuming where the last match ended, is replaced by
  what the function returns; the text between matches is kept.
\<close>

function replaceAllRx :: "namerx \<Rightarrow> (string \<Rightarrow> string \<Rightarrow> string) \<Rightarrow> string \<Rightarrow> string" where
  "replaceAllRx rx replacer [] = []"
| "replaceAllRx rx replacer (c # cs) =
     (case directMatchAt rx (c # cs) of
        Some (len, classes) \<Rightarrow>
          replacer (take len (c # cs)) classes @ replaceAllRx rx replacer (drop len (c # cs))
      | None \<Rightarrow> c # replaceAllRx rx replacer cs)"
  by pat_completeness auto
termination
proof (relation "measure (\<lambda>(rx, replacer, s). length s)", goal_cases)
  case 1
  show ?case by simp
next
  case 2
  then show ?case by simp
next
  case (3 rx replacer c cs x2 len classes)
  have tail: "valueTail t = Some (l, k) \<Longrightarrow> 0 < l" for t l k
    by (auto simp: valueTail_def split: list.splits if_splits)
  have first: "firstSome g xs = Some y \<Longrightarrow> \<exists>x \<in> set xs. g x = Some y"
    for g :: "nat \<Rightarrow> (nat \<times> string) option" and xs y
    by (induction xs) (auto split: option.splits)
  from 3 have "directMatchAt rx (c # cs) = Some (len, classes)" by simp
  from first [OF this [unfolded directMatchAt_def]] tail have "0 < len" by auto
  then show ?case by simp
qed

text \<open>The function passed to \<^verbatim>\<open>result.replace\<close> by both entry points.\<close>

definition directReplacer :: "string \<Rightarrow> string list \<Rightarrow> bool \<Rightarrow> string \<Rightarrow> string \<Rightarrow> string" where
  "directReplacer pfx skip adding match classes =
     (let processedClasses = processClasses classes pfx skip adding
      in strReplace match classes processedClasses)"

text \<open>\<^verbatim>\<open>text.slice(a, b)\<close> for indices within the text.\<close>

definition slice :: "string \<Rightarrow> nat \<Rightarrow> nat \<Rightarrow> string" where
  "slice text a b = take (b - a) (drop a text)"

text \<open>
  The same \<^verbatim>\<open>replace\<close> with a pattern compiled by the host. \<open>findMatch\<close> is the search
  from \<^verbatim>\<open>lastIndex\<close> for the leftmost position where the pattern matches. After an
  empty match the search resumes one character further. The function passed to
  \<^verbatim>\<open>replace\<close> receives capture group 1 as \<^verbatim>\<open>classes\<close>; when that is
  \<^verbatim>\<open>undefined\<close>, \<^verbatim>\<open>classString.split\<close> throws a type error, which ends the run.
\<close>

function findMatch :: "rxmatch \<Rightarrow> string \<Rightarrow> nat \<Rightarrow> (nat \<times> nat \<times> string option) option" where
  "findMatch rx text i =
     (if i \<le> length text then
        (case rx text i of
           Some (len, group1) \<Rightarrow> Some (i, len, group1)
         | None \<Rightarrow> findMatch rx text (Suc i))
      else None)"
  by pat_completeness auto
termination
  by (relation "measure (\<lambda>(rx, text, i). Suc (length text) - i)") auto

declare findMatch.simps [simp del]

function replaceCompiled ::
    "rxmatch \<Rightarrow> (string \<Rightarrow> string option \<Rightarrow> error + string) \<Rightarrow> string \<Rightarrow> nat \<Rightarrow> nat
       \<Rightarrow> error + string" where
  "replaceCompiled rx replacer text lastIndex nextSourcePosition =
     (case findMatch rx text lastIndex of
        None \<Rightarrow> Inr (drop nextSourcePosition text)
      | Some (position, len, group1) \<Rightarrow>
          (case replacer (slice text position (position + len)) group1 of
             Inl e \<Rightarrow> Inl e
           | Inr replacement \<Rightarrow>
               (case replaceCompiled rx replacer text
                       (if len = 0 then position + 1 else position + len) (position + len) of
                  Inl e \<Rightarrow> Inl e
                | Inr following \<Rightarrow>
                    Inr (slice text nextSourcePosition position @ replacement @ following))))"
  by pat_completeness auto
termination
proof (relation "measure (\<lambda>(rx, replacer, text, lastIndex, nextSourcePosition).
                            Suc (length text) - lastIndex)", goal_cases)
  case 1
  show ?case by simp
next
  case (2 rx replacer buf lastIndex nextSourcePosition x2 position y len group1 replacement)
  have fm: "findMatch r t i = Some (k, l, g) \<Longrightarrow> i \<le> k \<and> k \<le> length t" for r t i k l g
    by (induction r t i rule: findMatch.induct)
       (subst (asm) findMatch.simps, auto split: if_splits option.splits)
  from 2 have "findMatch rx buf lastIndex = Some (position, len, group1)" by simp
  from fm [OF this] show ?case by auto
qed

declare replaceCompiled.simps [simp del]

definition compiledReplacer ::
    "string \<Rightarrow> string list \<Rightarrow> bool \<Rightarrow> string \<Rightarrow> string option \<Rightarrow> error + string" where
  "compiledReplacer pfx skip adding match group1 =
     (case group1 of
        None \<Rightarrow> Inl TypeError
      | Some classes \<Rightarrow> Inr (directReplacer pfx skip adding match classes))"

text \<open>
  One round of \<^verbatim>\<open>patterns.forEach\<close>, and the whole of it: the patterns are applied one
  after the other, each to the result of the one before.
\<close>

fun applyPattern :: "string \<Rightarrow> string list \<Rightarrow> bool \<Rightarrow> pattern \<Rightarrow> string \<Rightarrow> error + string" where
  "applyPattern pfx skip adding (Builtin rx) result =
     Inr (replaceAllRx rx (directReplacer pfx skip adding) result)"
| "applyPattern pfx skip adding (Compiled rx) result =
     replaceCompiled rx (compiledReplacer pfx skip adding) result 0 0"

fun directPass :: "string \<Rightarrow> string list \<Rightarrow> bool \<Rightarrow> pattern list \<Rightarrow> string \<Rightarrow> error + string" where
  "directPass pfx skip adding [] result = Inr result"
| "directPass pfx skip adding (pattern # patterns) result =
     (case applyPattern pfx skip adding pattern result of
        Inl e \<Rightarrow> Inl e
      | Inr result' \<Rightarrow> directPass pfx skip adding patterns result')"

subsection \<open>\<^verbatim>\<open>processExpressionAttributeLiterals\<close>\<close>

text \<open>
  \<^verbatim>\<open>startRe.exec(text)\<close> from \<^verbatim>\<open>startRe.lastIndex\<close>: the leftmost position at
  or after it where the pattern matches, with the length of the match there; \<^verbatim>\<open>exec\<close>
  then sets \<^verbatim>\<open>startRe.lastIndex\<close> to the end of the match.
\<close>

function execFrom :: "(string \<Rightarrow> nat \<Rightarrow> nat option) \<Rightarrow> string \<Rightarrow> nat \<Rightarrow> (nat \<times> nat) option" where
  "execFrom startRe text i =
     (if i \<le> length text then
        (case startRe text i of
           Some len \<Rightarrow> Some (i, len)
         | None \<Rightarrow> execFrom startRe text (Suc i))
      else None)"
  by pat_completeness auto
termination
  by (relation "measure (\<lambda>(startRe, text, i). Suc (length text) - i)") auto

declare execFrom.simps [simp del]

text \<open>
  The \<^verbatim>\<open>while\<close> loop. Its state is \<^verbatim>\<open>startRe.lastIndex\<close>, \<^verbatim>\<open>lastIndex\<close> and
  \<^verbatim>\<open>result\<close>. With a pattern of the host the loop need not end: an empty match
  whose brace is not matched leaves the state as it was. The result is \<open>None\<close> when the
  loop does not end. (An empty match at the start of the text gives \<^verbatim>\<open>openBraceIndex\<close>
  the value \<open>-1\<close>; \<^verbatim>\<open>findMatchingBrace\<close> then reads \<^verbatim>\<open>source[-1]\<close>, which is no
  character and changes nothing, and goes on from index 0.)
\<close>

partial_function (option) exprLoop ::
    "(string \<Rightarrow> nat \<Rightarrow> nat option) \<Rightarrow> (string \<Rightarrow> string) \<Rightarrow> string \<Rightarrow> nat \<Rightarrow> nat \<Rightarrow> string
       \<Rightarrow> string option" where
  "exprLoop startRe transform text reLastIndex lastIndex result =
     (case execFrom startRe text reLastIndex of
        None \<Rightarrow> Some (result @ drop lastIndex text)
      | Some (index, len) \<Rightarrow>
          (let openBraceIndex = int (index + len) - 1;
               closeIndex = findMatchingBrace text (nat openBraceIndex)
           in if closeIndex = - 1 then
                exprLoop startRe transform text (index + len) lastIndex result
              else
                (let beforeText = slice text lastIndex (nat (openBraceIndex + 1));
                     body = slice text (nat (openBraceIndex + 1)) (nat closeIndex);
                     afterClose = nat closeIndex + 1;
                     transformedBody = transform body
                 in exprLoop startRe transform text afterClose afterClose
                      (result @ beforeText @ transformedBody @ ''}''))))"

declare exprLoop.simps [code]

text \<open>The replacer that the loop hands to the scanner; it does not look at the quote.\<close>

definition exprReplacer :: "ClassPrefixerConfig \<Rightarrow> bool \<Rightarrow> string \<Rightarrow> char \<Rightarrow> string" where
  "exprReplacer config addPrefix content quote =
     processClasses content (prefix config)
       (if addPrefix then skipClasses config else []) addPrefix"

definition processExpressionAttributeLiterals ::
    "engine \<Rightarrow> string \<Rightarrow> ClassPrefixerConfig \<Rightarrow> bool \<Rightarrow> (error + string) option" where
  "processExpressionAttributeLiterals RegExp text config addPrefix =
     (case newStartRe RegExp config of
        Inl e \<Rightarrow> Some (Inl e)
      | Inr startRe \<Rightarrow>
          map_option Inr
            (exprLoop startRe
               (\<lambda>body. replaceQuotedStringsIgnoringTemplates body
                          (exprReplacer config addPrefix))
               text 0 0 []))"

subsection \<open>\<^verbatim>\<open>addPrefixToClasses\<close> and \<^verbatim>\<open>removePrefixFromClasses\<close>\<close>

text \<open>
  Both return the warnings shown while the patterns were built and the outcome of the
  run: the new text, or the error that ended the run, or \<open>None\<close> when the run does not
  end.
\<close>

definition addPrefixToClasses ::
    "engine \<Rightarrow> string \<Rightarrow> ClassPrefixerConfig \<Rightarrow> string list \<times> (error + string) option" where
  "addPrefixToClasses RegExp text config =
     (let (patterns, warnings) = buildPatterns RegExp config
      in (warnings,
          case directPass (prefix config) (skipClasses config) True patterns text of
            Inl e \<Rightarrow> Some (Inl e)
          | Inr result \<Rightarrow> processExpressionAttributeLiterals RegExp result config True))"

definition removePrefixFromClasses ::
    "engine \<Rightarrow> string \<Rightarrow> ClassPrefixerConfig \<Rightarrow> string list \<times> (error + string) option" where
  "removePrefixFromClasses RegExp text config =
     (let (patterns, warnings) = buildPatterns RegExp config
      in (warnings,
          case directPass (prefix config) [] False patterns text of
            Inl e \<Rightarrow> Some (Inl e)
          | Inr result \<Rightarrow> processExpressionAttributeLiterals RegExp result config False))"

section \<open>Notions used in the statements\<close>

text \<open>
  The configuration that \<^verbatim>\<open>getConfig\<close> falls back to, and a constructor that
  rejects every source text (the constructor is consulted only when \<open>useRegex\<close> is set).
\<close>

definition defaultConfig :: ClassPrefixerConfig where
  "defaultConfig =
     \<lparr> prefix = ''app-'', skipClasses = [], autoFormat = True, customPatterns = [],
       useRegex = False, customRegexPatterns = [] \<rparr>"

definition noRegExp :: engine where
  "noRegExp = (\<lambda>source. None)"

text \<open>\<^verbatim>\<open>removePrefix(addPrefix(b, c), c)\<close>.\<close>

definition roundTrip ::
    "engine \<Rightarrow> string \<Rightarrow> ClassPrefixerConfig \<Rightarrow> (error + string) option" where
  "roundTrip RegExp b c =
     (case snd (addPrefixToClasses RegExp b c) of
        Some (Inr b') \<Rightarrow> snd (removePrefixFromClasses RegExp b' c)
      | outcome \<Rightarrow> outcome)"

text \<open>
  The inside of a template literal: no backtick except after a backslash, and no
  backslash left over at the end to escape the closing backtick.
\<close>

fun templateSpan :: "string \<Rightarrow> bool" where
  "templateSpan [] = True"
| "templateSpan (c # cs) =
     (if c = BS then (case cs of [] \<Rightarrow> False | d # r \<Rightarrow> templateSpan r)
      else c \<noteq> BT \<and> templateSpan cs)"


text \<open>
  The reference Brace Matcher as a recursion over the text, and the rendering of a
  position or its absence as the index or \<open>-1\<close>.
\<close>

fun firstZero :: "lexState \<Rightarrow> string \<Rightarrow> nat option" where
  "firstZero st [] = None"
| "firstZero st (c # cs) =
     (let st' = lexStep st c
      in if snd (snd st') = 0 then Some 0 else map_option Suc (firstZero st' cs))"

definition posOr :: "nat \<Rightarrow> nat option \<Rightarrow> int" where
  "posOr i x = (case x of Some n \<Rightarrow> int (i + n) | None \<Rightarrow> - 1)"



subsection \<open>Reference definition of the Quoted-String Scanner\<close>

text \<open>
  The specification's wording. Outside a template literal a single or double quote opens
  a string, whose content runs to the matching quote, a backslash and the character after
  it being copied into the content as they are; \<open>visit\<close> is given the content and the
  quote, and what it returns is emitted between the two quotes. A string with no matching
  quote before the end of the input is emitted literally from its opening quote onward.
  Inside a template literal every character is copied, a backslash together with the
  character after it, up to the closing backtick.
\<close>

fun stringEnd :: "char \<Rightarrow> string \<Rightarrow> (string \<times> string) option" where
  "stringEnd quote [] = None"
| "stringEnd quote (c # cs) =
     (if c = BS then
        (case cs of
           [] \<Rightarrow> None
         | d # r \<Rightarrow> map_option (\<lambda>(content, rest). (c # d # content, rest)) (stringEnd quote r))
      else if c = quote then Some ([], cs)
      else map_option (\<lambda>(content, rest). (c # content, rest)) (stringEnd quote cs))"


subsection \<open>A fragment that closes the group of the alternation\<close>







section \<open>Properties of the Token Processor\<close>

lemma dropWhile_isSpace_idem: "dropWhile isSpace (dropWhile isSpace s) = dropWhile isSpace s"
  by (induction s) auto

lemma tokensOf_dropWhile: "tokensOf (dropWhile isSpace s) = tokensOf s"
  by (subst (1 2) tokensOf.simps) (simp add: dropWhile_isSpace_idem)

lemma tokensOf_Nil: "tokensOf [] = []"
  by (subst tokensOf.simps) simp

lemma tokensOf_space: "isSpace c \<Longrightarrow> tokensOf (c # r) = tokensOf (dropWhile isSpace r)"
  using tokensOf_dropWhile [of "c # r"] by simp

lemma split_filter_tokens: "filter (\<lambda>c. length c > 0) (splitWs s) = tokensOf s"
proof (induction s rule: splitWs.induct)
  case (1 s)
  show ?case
  proof (cases "dropWhile notSpace s")
    case Nil
    then have ns: "\<forall>c \<in> set s. notSpace c"
      by (simp add: dropWhile_eq_Nil_conv)
    then have d: "dropWhile isSpace s = s"
      by (cases s) (auto simp: notSpace_def)
    have t: "takeWhile notSpace s = s"
      using ns by (simp add: takeWhile_eq_all_conv)
    have sp: "splitWs s = [s]"
      by (subst splitWs.simps) (simp add: Nil)
    show ?thesis
      by (subst tokensOf.simps) (simp add: sp d t Nil tokensOf_Nil Let_def)
  next
    case (Cons x r)
    have sp: "splitWs s = takeWhile notSpace s # splitWs (dropWhile isSpace r)"
      by (subst splitWs.simps) (simp add: Cons)
    have ih: "filter (\<lambda>c. length c > 0) (splitWs (dropWhile isSpace r))
                = tokensOf (dropWhile isSpace r)"
      using "1.IH" [OF Cons] .
    have xs: "isSpace x"
      using Cons by (simp add: dropWhile_eq_Cons_conv notSpace_def)
    show ?thesis
    proof (cases "takeWhile notSpace s = []")
      case True
      then have "dropWhile notSpace s = s"
        by (cases s) (auto split: if_splits)
      then have "s = x # r" using Cons by simp
      then show ?thesis
        using sp ih True xs by (simp add: tokensOf_space)
    next
      case False
      then obtain c cs where s: "s = c # cs" and nc: "notSpace c"
        by (cases s) (auto split: if_splits)
      then have d: "dropWhile isSpace s = s"
        by (simp add: notSpace_def)
      have "s \<noteq> []" using s by simp
      then have "tokensOf s = takeWhile notSpace s # tokensOf (dropWhile notSpace s)"
        by (subst tokensOf.simps) (simp add: d Let_def)
      then have "tokensOf s = takeWhile notSpace s # tokensOf (x # r)"
        by (simp add: Cons)
      then show ?thesis
        using sp ih False xs by (simp add: tokensOf_space)
    qed
  qed
qed

lemma processClasses_tokens:
  "processClasses s p skip adding = joinSp (map (rewriteToken p (set skip) adding) (tokensOf s))"
proof -
  have ne: "\<forall>t \<in> set (tokensOf s). t \<noteq> []"
    using split_filter_tokens [of s, symmetric] by auto
  have "map (\<lambda>className.
                   if className = [] then className
                   else if adding then
                     (if startsWith className p then className
                      else if includesStr skip className then className
                      else p @ className)
                   else
                     (if startsWith className p then drop (length p) className
                      else className)) (tokensOf s)
        = map (rewriteToken p (set skip) adding) (tokensOf s)"
    using ne by (intro map_cong) (auto simp: rewriteToken_def includesStr_def)
  then show ?thesis
    unfolding processClasses_def Let_def split_filter_tokens
    by (rule arg_cong)
qed

lemma tokensOf_word:
  assumes "x \<noteq> []" and "list_all notSpace x" and "r = [] \<or> isSpace (hd r)"
  shows "tokensOf (x @ r) = x # tokensOf r"
proof -
  from assms(1) obtain c cs where x: "x = c # cs" by (cases x) auto
  with assms(2) have nc: "\<not> isSpace c" by (simp add: notSpace_def)
  have d: "dropWhile isSpace (x @ r) = x @ r" using x nc by simp
  have ns: "\<forall>c \<in> set x. notSpace c" using assms(2) by (simp add: list_all_iff)
  have hr: "takeWhile notSpace r = []" using assms(3) by (cases r) (auto simp: notSpace_def)
  have t: "takeWhile notSpace (x @ r) = x"
    using ns hr by (simp add: takeWhile_append2)
  have hd: "dropWhile notSpace r = r" using assms(3) by (cases r) (auto simp: notSpace_def)
  have dr: "dropWhile notSpace (x @ r) = r"
    using ns hd by (simp add: dropWhile_append2)
  have "x @ r \<noteq> []" using assms(1) by simp
  then show ?thesis
    by (subst tokensOf.simps) (simp add: d t dr Let_def)
qed

lemma tokensOf_joinSp:
  "list_all (\<lambda>t. t \<noteq> [] \<and> list_all notSpace t) ts \<Longrightarrow> tokensOf (joinSp ts) = ts"
proof (induction ts rule: joinSp.induct)
  case 1
  then show ?case by (simp add: tokensOf_Nil)
next
  case (2 x)
  then show ?case using tokensOf_word [of x "[]"] by (simp add: tokensOf_Nil)
next
  case (3 x y zs)
  have sp: "isSpace (CHR 0x20)" by (simp add: isSpace_def)
  have "tokensOf (x @ CHR 0x20 # joinSp (y # zs)) = x # tokensOf (CHR 0x20 # joinSp (y # zs))"
    using 3(2) by (intro tokensOf_word) (simp_all add: sp)
  also have "tokensOf (CHR 0x20 # joinSp (y # zs)) = tokensOf (dropWhile isSpace (joinSp (y # zs)))"
    by (rule tokensOf_space [OF sp])
  also have "\<dots> = tokensOf (joinSp (y # zs))" by (rule tokensOf_dropWhile)
  also have "\<dots> = y # zs" using 3 by simp
  finally show ?case by simp
qed

lemma tokensOf_wellformed: "list_all (\<lambda>t. t \<noteq> [] \<and> list_all notSpace t) (tokensOf s)"
proof (induction s rule: tokensOf.induct)
  case (1 s)
  show ?case
  proof (cases "dropWhile isSpace s = []")
    case True
    then show ?thesis by (subst tokensOf.simps) (simp add: Let_def)
  next
    case False
    then obtain c r where cr: "dropWhile isSpace s = c # r" by (cases "dropWhile isSpace s") auto
    then have "\<not> isSpace c" by (simp add: dropWhile_eq_Cons_conv)
    then have ne: "takeWhile notSpace (dropWhile isSpace s) \<noteq> []"
      using cr by (simp add: notSpace_def)
    have al: "list_all notSpace (takeWhile notSpace (dropWhile isSpace s))"
      by (simp add: list_all_iff) (meson set_takeWhileD)
    from "1.IH" [OF refl False] ne al show ?thesis
      by (subst tokensOf.simps) (simp add: Let_def False)
  qed
qed

lemma rewriteToken_add_wellformed:
  "list_all notSpace p \<Longrightarrow> t \<noteq> [] \<and> list_all notSpace t
     \<Longrightarrow> rewriteToken p S True t \<noteq> [] \<and> list_all notSpace (rewriteToken p S True t)"
  by (simp add: rewriteToken_def)

lemma rewriteToken_remove_add:
  "\<not> startsWith t p \<Longrightarrow> rewriteToken p {} False (rewriteToken p S True t) = t"
  by (simp add: rewriteToken_def startsWith_def)

section \<open>Properties of the Quoted-String Scanner\<close>

lemma quote_chars_distinct:
  "DQ \<noteq> SQ" "DQ \<noteq> BT" "DQ \<noteq> BS" "SQ \<noteq> BT" "SQ \<noteq> BS" "BT \<noteq> BS"
  "SQ \<noteq> DQ" "BT \<noteq> DQ" "BS \<noteq> DQ" "BT \<noteq> SQ" "BS \<noteq> SQ" "BS \<noteq> BT"
  by (simp_all add: DQ_def SQ_def BT_def BS_def)

lemma scanContent_shorter:
  "scanContent q acc s = Some (k, r) \<Longrightarrow> length r < length s"
  by (induction q acc s rule: scanContent.induct) (auto split: if_splits list.splits)



lemma rqLoop_out: "rqLoop f out b s = out @ rqLoop f [] b s"
proof (induction "length s" arbitrary: s out b rule: less_induct)
  case less
  show ?case
  proof (cases s)
    case Nil
    then show ?thesis by simp
  next
    case (Cons ch rest)
    have step: "rqLoop f (out @ X) b' r' = out @ rqLoop f X b' r'"
      if "length r' < length s" for X b' r'
      using less [OF that, of "out @ X" b'] less [OF that, of X b'] by simp
    have r1: "length rest < length s" using Cons by simp
    have r2: "rest \<noteq> [] \<Longrightarrow> length (tl rest) < length s" using Cons by simp
    have r3: "scanContent ch [] rest = Some (k, r') \<Longrightarrow> length r' < length s" for k r'
      using scanContent_shorter [of ch "[]" rest k r'] Cons by simp
    show ?thesis
      using step [OF r1] step [OF r2] step [OF r3]
      by (simp add: Cons split: option.splits)
  qed
qed

lemma rq_template_body:
  "templateSpan t \<Longrightarrow> rqLoop f out True (t @ BT # post) = rqLoop f (out @ t @ [BT]) False post"
proof (induction t arbitrary: out rule: templateSpan.induct)
  case 1
  then show ?case by (simp add: quote_chars_distinct)
next
  case (2 c cs)
  show ?case
  proof (cases "c = BS")
    case True
    with 2 obtain d r where cs: "cs = d # r" and tr: "templateSpan r"
      by (cases cs) auto
    from "2.IH"(1) [OF True cs tr] show ?thesis
      by (simp add: True cs)
  next
    case False
    with 2 have nb: "c \<noteq> BT" and tc: "templateSpan cs" by auto
    from "2.IH"(2) [OF False tc] show ?thesis
      by (simp add: False nb)
  qed
qed


lemma rq_template_open:
  "templateSpan t \<Longrightarrow> rqLoop f out True t = out @ t"
proof (induction t arbitrary: out rule: templateSpan.induct)
  case 1
  then show ?case by simp
next
  case (2 c cs)
  show ?case
  proof (cases "c = BS")
    case True
    with 2 obtain d r where cs: "cs = d # r" and tr: "templateSpan r"
      by (cases cs) auto
    from "2.IH"(1) [OF True cs tr] show ?thesis
      by (simp add: True cs)
  next
    case False
    with 2 have nb: "c \<noteq> BT" and tc: "templateSpan cs" by auto
    from "2.IH"(2) [OF False tc] show ?thesis
      by (simp add: False nb)
  qed
qed






section \<open>Properties of the Brace Matcher\<close>

lemma brace_chars_distinct:
  "CHR 0x7B \<noteq> SQ" "CHR 0x7B \<noteq> DQ" "CHR 0x7B \<noteq> BT" "CHR 0x7B \<noteq> BS"
  "CHR 0x7D \<noteq> SQ" "CHR 0x7D \<noteq> DQ" "CHR 0x7D \<noteq> BT" "CHR 0x7D \<noteq> BS"
  by (simp_all add: DQ_def SQ_def BT_def BS_def)

lemma find_map_option: "List.find P (map f xs) = map_option f (List.find (\<lambda>x. P (f x)) xs)"
  by (induction xs) auto

lemma find_firstZero:
  "List.find (\<lambda>n. snd (snd (foldl lexStep st (take (Suc n) cs))) = 0) [0..<length cs]
     = firstZero st cs"
proof (induction cs arbitrary: st)
  case Nil
  then show ?case by simp
next
  case (Cons c cs)
  have u: "[0..<length (c # cs)] = 0 # map Suc [0..<length cs]"
    by (simp add: upt_conv_Cons map_Suc_upt del: upt_Suc)
  show ?case
    unfolding u
    by (simp add: find_map_option Cons.IH Let_def del: upt_Suc)
qed

lemma posOr_simps:
  "posOr i None = - 1" "posOr i (Some 0) = int i"
  "posOr i (map_option Suc x) = posOr (i + 1) x"
  "posOr i (map_option Suc (map_option Suc x)) = posOr (i + 2) x"
  by (cases x; simp add: posOr_def)+

lemma firstZero_step:
  "firstZero st (c # cs) =
     (if snd (snd (lexStep st c)) = 0 then Some 0
      else map_option Suc (firstZero (lexStep st c) cs))"
  by (simp add: Let_def)

lemma fmbLoop_firstZero:
  "1 \<le> d \<Longrightarrow>
   fmbLoop cs i d (m = InSingle) (m = InDouble) (m = InTemplate)
     = posOr i (firstZero (m, False, d) cs)"
proof (induction "length cs" arbitrary: cs i d m rule: less_induct)
  case less
  show ?case
  proof (cases cs)
    case Nil
    then show ?thesis by (simp add: posOr_simps)
  next
    case (Cons ch rest)
    have ih: "1 \<le> d' \<Longrightarrow> fmbLoop rest i' d' (m' = InSingle) (m' = InDouble) (m' = InTemplate)
         = posOr i' (firstZero (m', False, d') rest)"
      for i' d' m'
      using less.hyps [of rest d' i' m'] Cons by simp
    have d0: "d \<noteq> 0" using less.prems by simp
    have esc: "m \<noteq> Normal \<Longrightarrow>
        fmbLoop (tl rest) (i + 2) d (m = InSingle) (m = InDouble) (m = InTemplate)
         = posOr i (firstZero (m, False, d) (BS # rest))"
    proof (cases rest)
      case Nil
      assume "m \<noteq> Normal"
      then show ?thesis
        using d0 by (cases m) (simp_all add: Nil posOr_simps firstZero_step del: firstZero.simps(2))
    next
      case (Cons x r)
      assume nn: "m \<noteq> Normal"
      have "fmbLoop r (i + 2) d (m = InSingle) (m = InDouble) (m = InTemplate)
              = posOr (i + 2) (firstZero (m, False, d) r)"
        using less.hyps [of r d "i + 2" m] less.prems Cons \<open>cs = ch # rest\<close> by simp
      then show ?thesis
        using d0 nn
        by (cases m) (simp_all add: Cons posOr_simps firstZero_step del: firstZero.simps(2))
    qed
    show ?thesis
    proof (cases m)
      case Normal
      consider "ch = SQ" | "ch = DQ" | "ch = BT" | "ch = CHR 0x7B" | "ch = CHR 0x7D"
        | "ch \<noteq> SQ" "ch \<noteq> DQ" "ch \<noteq> BT" "ch \<noteq> CHR 0x7B" "ch \<noteq> CHR 0x7D"
        by blast
      then show ?thesis
      proof cases
        case 1
        then show ?thesis using ih [of d _ InSingle] less.prems d0
          by (simp add: Cons Normal posOr_simps firstZero_step quote_chars_distinct
                del: firstZero.simps(2))
      next
        case 2
        then show ?thesis using ih [of d _ InDouble] less.prems d0
          by (simp add: Cons Normal posOr_simps firstZero_step quote_chars_distinct
                del: firstZero.simps(2))
      next
        case 3
        then show ?thesis using ih [of d _ InTemplate] less.prems d0
          by (simp add: Cons Normal posOr_simps firstZero_step quote_chars_distinct
                del: firstZero.simps(2))
      next
        case 4
        then show ?thesis using ih [of "d + 1" _ Normal] less.prems
          by (simp add: Cons Normal posOr_simps firstZero_step quote_chars_distinct
                brace_chars_distinct del: firstZero.simps(2))
      next
        case 5
        show ?thesis
        proof (cases "d - 1 = 0")
          case True
          then show ?thesis using 5
            by (simp add: Cons Normal posOr_simps firstZero_step quote_chars_distinct
                brace_chars_distinct del: firstZero.simps(2))
        next
          case False
          then have "1 \<le> d - 1" using less.prems by simp
          from ih [OF this, of _ Normal] show ?thesis using 5 False
            by (simp add: Cons Normal posOr_simps firstZero_step quote_chars_distinct
                brace_chars_distinct del: firstZero.simps(2))
        qed
      next
        case 6
        then show ?thesis using ih [of d _ Normal] less.prems d0
          by (simp add: Cons Normal posOr_simps firstZero_step del: firstZero.simps(2))
      qed
    next
      case InSingle
      consider "ch = BS" | "ch \<noteq> BS" "ch = SQ" | "ch \<noteq> BS" "ch \<noteq> SQ" by blast
      then show ?thesis
      proof cases
        case 1
        then show ?thesis using esc by (simp add: Cons InSingle)
      next
        case 2
        then show ?thesis using ih [of d _ Normal] less.prems d0
          by (simp add: Cons InSingle posOr_simps firstZero_step del: firstZero.simps(2))
      next
        case 3
        then show ?thesis using ih [of d _ InSingle] less.prems d0
          by (simp add: Cons InSingle posOr_simps firstZero_step del: firstZero.simps(2))
      qed
    next
      case InDouble
      consider "ch = BS" | "ch \<noteq> BS" "ch = DQ" | "ch \<noteq> BS" "ch \<noteq> DQ" by blast
      then show ?thesis
      proof cases
        case 1
        then show ?thesis using esc by (simp add: Cons InDouble)
      next
        case 2
        then show ?thesis using ih [of d _ Normal] less.prems d0
          by (simp add: Cons InDouble posOr_simps firstZero_step del: firstZero.simps(2))
      next
        case 3
        then show ?thesis using ih [of d _ InDouble] less.prems d0
          by (simp add: Cons InDouble posOr_simps firstZero_step del: firstZero.simps(2))
      qed
    next
      case InTemplate
      consider "ch = BS" | "ch \<noteq> BS" "ch = BT" | "ch \<noteq> BS" "ch \<noteq> BT" by blast
      then show ?thesis
      proof cases
        case 1
        then show ?thesis using esc by (simp add: Cons InTemplate)
      next
        case 2
        then show ?thesis using ih [of d _ Normal] less.prems d0
          by (simp add: Cons InTemplate posOr_simps firstZero_step del: firstZero.simps(2))
      next
        case 3
        then show ?thesis using ih [of d _ InTemplate] less.prems d0
          by (simp add: Cons InTemplate posOr_simps firstZero_step del: firstZero.simps(2))
      qed
    qed
  qed
qed

lemma matchingClose_firstZero:
  assumes "openIndex < length text" and "text ! openIndex = CHR 0x7B"
  shows "matchingClose text openIndex
           = map_option (\<lambda>n. Suc openIndex + n)
               (firstZero (Normal, False, 1) (drop (Suc openIndex) text))"
proof -
  define cs where "cs = drop (Suc openIndex) text"
  have d: "drop openIndex text = CHR 0x7B # cs"
    using Cons_nth_drop_Suc [OF assms(1)] assms(2) by (simp add: cs_def)
  have len: "length cs = length text - Suc openIndex" by (simp add: cs_def)
  have u: "[Suc openIndex ..< length text] = map (\<lambda>n. Suc openIndex + n) [0..<length cs]"
  proof -
    have "map (\<lambda>n. Suc openIndex + n) [0..<length cs] = map (\<lambda>i. i + Suc openIndex) [0..<length cs]"
      by (simp add: add.commute)
    also have "\<dots> = [Suc openIndex ..< length cs + Suc openIndex]"
      by (rule map_add_upt)
    also have "length cs + Suc openIndex = length text"
      using assms(1) len by simp
    finally show ?thesis by simp
  qed
  have da: "depthAfter text openIndex (Suc openIndex + n)
              = snd (snd (foldl lexStep (Normal, False, 1) (take (Suc n) cs)))" for n
    by (simp add: depthAfter_def d brace_chars_distinct Suc_diff_le)
  show ?thesis
    unfolding matchingClose_def u find_map_option da cs_def [symmetric]
    by (simp only: find_firstZero)
qed

lemma fmbLoop_bound: "fmbLoop s i d p q r = - 1 \<or> int i \<le> fmbLoop s i d p q r"
proof (induction "length s" arbitrary: s i d p q r rule: less_induct)
  case less
  show ?case
  proof (cases s)
    case Nil
    then show ?thesis by simp
  next
    case (Cons ch rest)
    have A: "fmbLoop rest (i + 1) d' p' q' r' = - 1 \<or> int i \<le> fmbLoop rest (i + 1) d' p' q' r'"
      for d' p' q' r'
      using less [of rest "i + 1" d' p' q' r'] Cons by auto
    have B: "fmbLoop (tl rest) (i + 2) d' p' q' r' = - 1
               \<or> int i \<le> fmbLoop (tl rest) (i + 2) d' p' q' r'"
      for d' p' q' r'
      using less [of "tl rest" "i + 2" d' p' q' r'] Cons by (cases rest) auto
    show ?thesis
      unfolding Cons fmbLoop.simps using A B by simp
  qed
qed








section \<open>Properties of the patterns and the Rewrite Engine\<close>

lemma indexOfStr_Nil: "indexOfStr s [] = Some 0"
  by (cases s) (simp_all add: startsWith_def)

lemma splitWs_Nil: "splitWs [] = [[]]"
  by (subst splitWs.simps) simp

lemma processClasses_Nil: "processClasses [] p skip adding = []"
  by (simp add: processClasses_def splitWs_Nil)

lemma directReplacer_Nil: "directReplacer p skip adding m [] = m"
  by (simp add: directReplacer_def processClasses_Nil strReplace_def indexOfStr_Nil)

lemma dedupBy_subset: "set (dedupBy key xs) \<subseteq> set xs"
proof (induction "length xs" arbitrary: xs rule: less_induct)
  case less
  show ?case
  proof (cases xs)
    case Nil
    then show ?thesis by simp
  next
    case (Cons x r)
    have "length (filter (\<lambda>y. key y \<noteq> key x) r) < length xs"
      using Cons by (simp add: le_imp_less_Suc)
    from less [OF this] show ?thesis using Cons by auto
  qed
qed

lemma dedupBy_keys: "key ` set (dedupBy key xs) = key ` set xs"
proof (induction "length xs" arbitrary: xs rule: less_induct)
  case less
  show ?case
  proof (cases xs)
    case Nil
    then show ?thesis by simp
  next
    case (Cons x r)
    have "length (filter (\<lambda>y. key y \<noteq> key x) r) < length xs"
      using Cons by (simp add: le_imp_less_Suc)
    from less [OF this] show ?thesis using Cons by auto
  qed
qed

lemma firstSome_unique:
  "\<exists>n \<in> set xs. g n = Some y \<Longrightarrow> \<forall>n \<in> set xs. g n = None \<or> g n = Some y
     \<Longrightarrow> firstSome g xs = Some y"
  by (induction xs) (auto split: option.splits)

lemma ClassName_chars: "list_all isNameChar ''ClassName''"
  by (simp add: isNameChar_def)

lemma nameChar_not_space: "isNameChar c \<Longrightarrow> \<not> isSpace c"
  by (auto simp: isNameChar_def isSpace_def Let_def)

lemma nameChar_not_eq: "isNameChar c \<Longrightarrow> c \<noteq> CHR 0x3D"
  by (auto simp: isNameChar_def Let_def)

lemma valueTail_nameChar: "isNameChar c \<Longrightarrow> valueTail (c # r) = None"
  by (simp add: valueTail_def nameChar_not_space nameChar_not_eq)

lemma valueTail_Nil: "valueTail [] = None"
  by (simp add: valueTail_def)

lemma valueTail_head:
  "valueTail t = Some (l, v) \<Longrightarrow> t \<noteq> [] \<and> \<not> isNameChar (hd t)"
  by (cases t) (auto simp: valueTail_nameChar valueTail_Nil)

lemma valueTail_quoted:
  "list_all notQuote v \<Longrightarrow>
   valueTail (CHR 0x3D # DQ # v @ DQ # rest) = Some (length v + 3, v)"
proof -
  assume a: "list_all notQuote v"
  have s: "\<not> isSpace (CHR 0x3D)" "\<not> isSpace DQ" by (simp_all add: isSpace_def DQ_def)
  have q: "isQuote DQ" by (simp add: isQuote_def)
  have nq: "\<forall>c \<in> set v. notQuote c" using a by (simp add: list_all_iff)
  have t: "takeWhile notQuote (v @ DQ # rest) = v"
    using nq q by (simp add: takeWhile_append2 notQuote_def)
  have d: "dropWhile notQuote (v @ DQ # rest) = DQ # rest"
    using nq q by (simp add: dropWhile_append2 notQuote_def)
  show ?thesis
    by (simp add: valueTail_def s q t d)
qed

lemma ClassName_after:
  assumes "list_all isNameChar x" and "valueTail after = Some (l, v)"
  shows "directMatchAt (wildcardRx ''*ClassName'') (x @ ''ClassName'' @ after)
           = Some (length x + 9 + l, v)"
proof -
  define CN :: string where "CN = ''ClassName''"
  define s where "s = x @ CN @ after"
  define g where "g = (\<lambda>n. map_option (\<lambda>(l, classes). (n + l, classes)) (valueTail (drop n s)))"
  have lenCN: "length CN = 9" by (simp add: CN_def)
  have cnChars: "\<forall>c \<in> set CN. isNameChar c"
    using ClassName_chars by (simp add: CN_def list_all_iff)
  have xChars: "\<forall>c \<in> set x. isNameChar c" using assms(1) by (simp add: list_all_iff)
  from valueTail_head [OF assms(2)] obtain e r where after: "after = e # r" and e: "\<not> isNameChar e"
    by (cases after) auto
  have run: "takeWhile isNameChar s = x @ CN"
    using xChars cnChars e by (simp add: s_def after takeWhile_append2)
  have split9: "splitChar (CHR 0x2A) ''*ClassName'' = [[], CN]"
    by (simp add: CN_def)
  have cands: "wildcardRx ''*ClassName'' s
      = concat (map (\<lambda>k. map (\<lambda>n. k + n) (litRx CN (drop k s))) (rev [0..<Suc (length x + 9)]))"
    unfolding wildcardRx_def split9
    by (simp add: startsWith_def run lenCN Let_def del: upt_Suc)
  have inset: "n \<in> set (wildcardRx ''*ClassName'' s)
      \<longleftrightarrow> (\<exists>k \<le> length x + 9. n = k + 9 \<and> startsWith (drop k s) CN)" for n
    unfolding cands by (auto simp: litRx_def lenCN less_Suc_eq_le)
  have good: "g (length x + 9) = Some (length x + 9 + l, v)"
    by (simp add: g_def s_def lenCN assms(2))
  have "startsWith (drop (length x) s) CN"
    by (simp add: s_def startsWith_def)
  then have mem: "length x + 9 \<in> set (wildcardRx ''*ClassName'' s)"
    unfolding inset by auto
  have others: "g n = None \<or> g n = Some (length x + 9 + l, v)"
    if "n \<in> set (wildcardRx ''*ClassName'' s)" for n
  proof -
    from that obtain k where k: "k \<le> length x + 9" "n = k + 9" "startsWith (drop k s) CN"
      unfolding inset by auto
    consider "k < length x" | "k = length x" | "length x < k"
      by linarith
    then show ?thesis
    proof cases
      case 1
      define y where "y = x @ CN"
      have lt: "n < length y" using 1 k(2) lenCN by (simp add: y_def)
      have yChars: "\<forall>c \<in> set y. isNameChar c" using xChars cnChars by (auto simp: y_def)
      have "drop n y = y ! n # drop (Suc n) y" using lt by (simp add: Cons_nth_drop_Suc)
      moreover have "drop n s = drop n y @ after" using lt by (simp add: s_def y_def)
      ultimately have "drop n s = y ! n # (drop (Suc n) y @ after)" by simp
      moreover have "isNameChar (y ! n)" using yChars lt by simp
      ultimately show ?thesis by (simp add: g_def valueTail_nameChar)
    next
      case 2
      then show ?thesis using good k(2) by simp
    next
      case 3
      define j where "j = k - length x"
      have j: "0 < j" "j \<le> 9" "k = length x + j" using 3 k(1) by (simp_all add: j_def)
      have dk: "drop k s = drop j CN @ e # r" using j lenCN by (simp add: s_def after)
      have "\<not> startsWith (drop j CN @ e # r) CN"
      proof -
        have "j \<in> {1, 2, 3, 4, 5, 6, 7, 8, 9}" using j by auto
        moreover have "e \<noteq> CHR ''C''" using e by (auto simp: isNameChar_def)
        ultimately show ?thesis
          by (auto simp: CN_def startsWith_def)
      qed
      with k(3) dk show ?thesis by simp
    qed
  qed
  have "firstSome g (wildcardRx ''*ClassName'' s) = Some (length x + 9 + l, v)"
    by (rule firstSome_unique) (use mem good others in blast)+
  then show ?thesis
    by (simp add: directMatchAt_def g_def s_def CN_def)
qed

section \<open>Properties of the reference scanner and of compiled patterns\<close>




lemma rq_template_lone_escape:
  "templateSpan t \<Longrightarrow> rqLoop f out True (t @ [BS]) = out @ t @ [BS]"
proof (induction t arbitrary: out rule: templateSpan.induct)
  case 1
  show ?case by (simp add: quote_chars_distinct)
next
  case (2 c cs)
  show ?case
  proof (cases "c = BS")
    case True
    with "2.prems" obtain d r where cs: "cs = d # r" and ts: "templateSpan r"
      by (cases cs) auto
    from "2.IH"(1) [OF True cs ts] show ?thesis using True cs by simp
  next
    case False
    with "2.prems" have nb: "c \<noteq> BT" and ts: "templateSpan cs" by auto
    from "2.IH"(2) [OF False ts] show ?thesis using False nb by simp
  qed
qed

lemma directPass_Builtin:
  "directPass pfx skip adding (map Builtin rxs) buffer
     = Inr (foldl (\<lambda>result rx. replaceAllRx rx (directReplacer pfx skip adding) result)
              buffer rxs)"
  by (induction rxs arbitrary: buffer) simp_all

lemma buildPatterns_builtin:
  "\<not> useRegex config \<Longrightarrow>
   buildPatterns RegExp config
     = (map Builtin (litRx ''className'' # map wildcardRx (dedupBy id (customNames config))), [])"
  by (simp add: buildPatterns_def buildPatternsFromCustom_def)

lemma startRe_rejected:
  "useRegex config \<Longrightarrow> RegExp (startReSource config) = None \<Longrightarrow>
   processExpressionAttributeLiterals RegExp buffer config adding
     = Some (Inl (SyntaxError (startReSource config)))"
  by (simp add: processExpressionAttributeLiterals_def newStartRe_def)

lemma replaceCompiled_errors:
  "replaceCompiled rx replacer buffer lastIndex nextSourcePosition = Inl e
     \<Longrightarrow> replacer = compiledReplacer pfx skip adding \<Longrightarrow> e = TypeError"
proof (induction rx replacer buffer lastIndex nextSourcePosition
        rule: replaceCompiled.induct)
  case (1 rx replacer buffer lastIndex nextSourcePosition)
  note r = "1.prems"(2)
  show ?case
  proof (cases "findMatch rx buffer lastIndex")
    case None
    with "1.prems"(1) show ?thesis by (subst (asm) replaceCompiled.simps) simp
  next
    case (Some m)
    obtain position len group1 where m: "m = (position, len, group1)" by (cases m) auto
    show ?thesis
    proof (cases "replacer (slice buffer position (position + len)) group1")
      case (Inl e')
      then have "e' = TypeError"
        by (auto simp: r compiledReplacer_def split: option.splits)
      moreover from "1.prems"(1) Some m Inl have "e' = e"
        by (subst (asm) replaceCompiled.simps) simp
      ultimately show ?thesis by simp
    next
      case (Inr replacement)
      from "1.prems"(1) Some m Inr
      have "replaceCompiled rx replacer buffer
              (if len = 0 then position + 1 else position + len) (position + len) = Inl e"
        by (subst (asm) replaceCompiled.simps) (auto split: sum.splits if_splits)
      moreover have m1: "(position, len, group1) = m" by (simp add: m)
      moreover have m2: "(len, group1) = (len, group1)" by simp
      ultimately show ?thesis using "1.IH" [OF Some m1 m2 Inr _ r] by blast
    qed
  qed
qed

lemma directPass_errors:
  "directPass pfx skip adding patterns buffer = Inl e \<Longrightarrow> e = TypeError"
proof (induction patterns arbitrary: buffer)
  case Nil
  then show ?case by simp
next
  case (Cons pattern patterns)
  show ?case
  proof (cases pattern)
    case (Builtin rx)
    with Cons.prems have "directPass pfx skip adding patterns
        (replaceAllRx rx (directReplacer pfx skip adding) buffer) = Inl e"
      by simp
    then show ?thesis by (rule Cons.IH)
  next
    case (Compiled rx)
    show ?thesis
    proof (cases "replaceCompiled rx (compiledReplacer pfx skip adding) buffer 0 0")
      case (Inl e')
      with Cons.prems Compiled have "e' = e" by simp
      with Inl show ?thesis using replaceCompiled_errors by blast
    next
      case (Inr result)
      with Cons.prems Compiled have "directPass pfx skip adding patterns result = Inl e"
        by simp
      then show ?thesis by (rule Cons.IH)
    qed
  qed
qed

lemma firstZero_append:
  "firstZero st (xs @ ys)
     = (case firstZero st xs of
          Some n \<Rightarrow> Some n
        | None \<Rightarrow> map_option (\<lambda>n. length xs + n) (firstZero (foldl lexStep st xs) ys))"
proof (induction xs arbitrary: st)
  case Nil
  show ?case by (cases "firstZero st ys") simp_all
next
  case (Cons x xs)
  show ?case
    unfolding append_Cons firstZero_step Cons.IH
    by (auto simp add: option.map_comp comp_def split: option.splits
             intro!: arg_cong2 [where f = map_option])
qed

lemma firstZero_None_depth:
  "firstZero st xs = None \<Longrightarrow> snd (snd st) \<noteq> 0 \<Longrightarrow> snd (snd (foldl lexStep st xs)) \<noteq> 0"
proof (induction xs arbitrary: st)
  case Nil
  then show ?case by simp
next
  case (Cons x xs)
  from Cons.prems(1) have a: "snd (snd (lexStep st x)) \<noteq> 0" and b: "firstZero (lexStep st x) xs = None"
    unfolding firstZero_step by (auto split: if_splits)
  from Cons.IH [OF b a] show ?case by simp
qed

lemma unclosed_string_no_zero:
  "stringEnd q s = None \<Longrightarrow> q = closerOf m \<Longrightarrow> m = InSingle \<or> m = InDouble \<Longrightarrow> d \<noteq> 0
     \<Longrightarrow> firstZero (m, False, d) s = None"
proof (induction q s rule: stringEnd.induct)
  case (1 quote)
  show ?case by simp
next
  case (2 quote c cs)
  have esc: "lexStep (m, False, d) BS = (m, True, d)"
    using "2.prems"(3) by auto
  have skip: "lexStep (m, True, d) x = (m, False, d)" for x
    by simp
  show ?case
  proof (cases "c = BS")
    case True
    show ?thesis
    proof (cases cs)
      case Nil
      then show ?thesis using True esc "2.prems"(4) unfolding firstZero_step by simp
    next
      case (Cons x r)
      from "2.prems"(1) have "stringEnd quote r = None" using True Cons by simp
      from "2.IH"(1) [OF True Cons this "2.prems"(2,3,4)]
      show ?thesis using True Cons esc skip "2.prems"(4) unfolding firstZero_step by simp
    qed
  next
    case False
    from "2.prems"(1) have nq: "c \<noteq> quote" and n: "stringEnd quote cs = None"
      using False by (auto split: if_splits)
    have st: "lexStep (m, False, d) c = (m, False, d)"
      using False nq "2.prems"(2,3) by auto
    from "2.IH"(2) [OF False nq n "2.prems"(2,3,4)]
    show ?thesis using st "2.prems"(4) unfolding firstZero_step by simp
  qed
qed

lemma unterminated_string_unbalanced:
  assumes "openIndex < length text" and "text ! openIndex = CHR 0x7B"
    and "drop (Suc openIndex) text = pre @ q # rest"
    and "q = DQ \<or> q = SQ"
    and "foldl lexStep (Normal, False, 1) pre = (Normal, False, d)"
    and "firstZero (Normal, False, 1) pre = None"
    and "stringEnd q rest = None"
  shows "findMatchingBrace text openIndex = - 1"
proof -
  have dr: "drop openIndex text = CHR 0x7B # drop (Suc openIndex) text"
    using Cons_nth_drop_Suc [OF assms(1)] assms(2) by simp
  have "findMatchingBrace text openIndex
          = fmbLoop (drop (Suc openIndex) text) (openIndex + 1) 1
              (Normal = InSingle) (Normal = InDouble) (Normal = InTemplate)"
    by (simp add: findMatchingBrace_def dr brace_chars_distinct)
  also have "\<dots> = posOr (openIndex + 1) (firstZero (Normal, False, 1) (drop (Suc openIndex) text))"
    by (rule fmbLoop_firstZero) simp
  finally have e: "findMatchingBrace text openIndex
      = posOr (openIndex + 1) (firstZero (Normal, False, 1) (pre @ q # rest))"
    by (simp add: assms(3))
  have d0: "d \<noteq> 0"
    using firstZero_None_depth [OF assms(6)] assms(5) by simp
  obtain m where m: "m = InSingle \<or> m = InDouble" "q = closerOf m"
    "lexStep (Normal, False, d) q = (m, False, d)"
    using assms(4) by (auto simp: quote_chars_distinct)
  have "firstZero (m, False, d) rest = None"
    using assms(7) m(2) m(1) d0 by (rule unclosed_string_no_zero)
  then have "firstZero (Normal, False, d) (q # rest) = None"
    unfolding firstZero_step using m(3) d0 by simp
  then have "firstZero (Normal, False, 1) (pre @ q # rest) = None"
    unfolding firstZero_append by (simp add: assms(5,6))
  with e show ?thesis by (simp add: posOr_def)
qed

lemma map_filter_all_None:
  "list_all (\<lambda>x. f x = None) xs \<Longrightarrow> List.map_filter f xs = []"
  by (induction xs) (simp_all add: map_filter_simps)

subsection \<open>The loop of the expression-value pass returns\<close>

lemma execFrom_Some:
  "execFrom startRe buffer i = Some (k, l)
     \<Longrightarrow> i \<le> k \<and> k \<le> length buffer \<and> startRe buffer k = Some l"
  by (induction startRe buffer i rule: execFrom.induct)
     (subst (asm) execFrom.simps, auto split: if_splits option.splits)

lemma findMatchingBrace_bound:
  "findMatchingBrace s i = - 1 \<or> int i \<le> findMatchingBrace s i"
  unfolding findMatchingBrace_def by (rule fmbLoop_bound)

text \<open>When no match of the pattern is empty, the loop ends, whatever the text.\<close>

lemma exprLoop_returns:
  assumes pos: "\<And>t i l. startRe t i = Some l \<Longrightarrow> 0 < l"
  shows "\<exists>r. exprLoop startRe transform buffer reLastIndex lastIndex result = Some r"
proof (induction "Suc (length buffer) - reLastIndex" arbitrary: reLastIndex lastIndex result
        rule: less_induct)
  case less
  show ?case
  proof (cases "execFrom startRe buffer reLastIndex")
    case None
    then show ?thesis by (subst exprLoop.simps) simp
  next
    case (Some m)
    obtain index len where m: "m = (index, len)" by (cases m)
    have e: "execFrom startRe buffer reLastIndex = Some (index, len)" using Some m by simp
    from execFrom_Some [OF e]
    have b: "reLastIndex \<le> index" "index \<le> length buffer"
      and s: "startRe buffer index = Some len" by auto
    from pos [OF s] have l: "0 < len" .
    define ci where "ci = findMatchingBrace buffer (nat (int (index + len) - 1))"
    show ?thesis
    proof (cases "ci = - 1")
      case True
      have "Suc (length buffer) - (index + len) < Suc (length buffer) - reLastIndex"
        using b l by simp
      from less [OF this, of lastIndex result]
      obtain r where "exprLoop startRe transform buffer (index + len) lastIndex result = Some r"
        by blast
      then show ?thesis
        using e True by (subst exprLoop.simps) (simp add: ci_def Let_def)
    next
      case False
      have "int (nat (int (index + len) - 1)) \<le> ci"
        using findMatchingBrace_bound [of buffer "nat (int (index + len) - 1)"] False
        by (simp add: ci_def)
      then have "reLastIndex < nat ci + 1" using b l by linarith
      then have "Suc (length buffer) - (nat ci + 1) < Suc (length buffer) - reLastIndex"
        using b by simp
      from less [OF this]
      have "\<exists>r. exprLoop startRe transform buffer (nat ci + 1) (nat ci + 1) result' = Some r"
        for result'
        by blast
      then show ?thesis
        using e False by (subst exprLoop.simps) (simp add: ci_def Let_def)
    qed
  qed
qed

lemma firstSome_Some: "firstSome f xs = Some y \<Longrightarrow> \<exists>x \<in> set xs. f x = Some y"
  by (induction xs) (auto split: option.splits)

lemma exprTail_positive: "exprTail s = Some l \<Longrightarrow> 0 < l"
  by (auto simp: exprTail_def split: list.splits if_splits)

lemma startMatchAt_positive: "startMatchAt alts s = Some l \<Longrightarrow> 0 < l"
proof -
  assume "startMatchAt alts s = Some l"
  then obtain n where "map_option (\<lambda>k. n + k) (exprTail (drop n s)) = Some l"
    unfolding startMatchAt_def by (blast dest: firstSome_Some)
  then obtain k where "exprTail (drop n s) = Some k" and "l = n + k" by auto
  then show "0 < l" using exprTail_positive by auto
qed

text \<open>Without \<open>useRegex\<close> every run returns a text.\<close>

lemma builtin_pass_returns:
  assumes "\<not> useRegex config"
  shows "\<exists>r. processExpressionAttributeLiterals RegExp buffer config adding = Some (Inr r)"
proof -
  define startRe where
    "startRe = (\<lambda>text i. startMatchAt (builtinAlternatives config) (drop i text))"
  have pos: "0 < l" if "startRe t i = Some l" for t i l
    using that unfolding startRe_def by (rule startMatchAt_positive)
  have "\<exists>r. exprLoop startRe
       (\<lambda>body. replaceQuotedStringsIgnoringTemplates body (exprReplacer config adding))
       buffer 0 0 [] = Some r"
    by (rule exprLoop_returns) (rule pos)
  then obtain r where
    "exprLoop startRe
       (\<lambda>body. replaceQuotedStringsIgnoringTemplates body (exprReplacer config adding))
       buffer 0 0 [] = Some r"
    by blast
  then show ?thesis
    using assms
    by (simp add: processExpressionAttributeLiterals_def newStartRe_def startRe_def)
qed

lemma builtin_run_returns:
  assumes "\<not> useRegex config"
  shows "\<exists>r. snd (addPrefixToClasses RegExp buffer config) = Some (Inr r)"
    and "\<exists>r. snd (removePrefixFromClasses RegExp buffer config) = Some (Inr r)"
proof -
  define L where "L = litRx ''className'' # map wildcardRx (dedupBy id (customNames config))"
  have bp: "buildPatterns RegExp config = (map Builtin L, [])"
    unfolding L_def using assms by (rule buildPatterns_builtin)
  show "\<exists>r. snd (addPrefixToClasses RegExp buffer config) = Some (Inr r)"
    using builtin_pass_returns [OF assms]
    by (simp add: addPrefixToClasses_def bp directPass_Builtin)
  show "\<exists>r. snd (removePrefixFromClasses RegExp buffer config) = Some (Inr r)"
    using builtin_pass_returns [OF assms]
    by (simp add: removePrefixFromClasses_def bp directPass_Builtin)
qed

text \<open>
  With a pattern of the host the loop need not end: a pattern that matches the empty
  text at position 0 of a text without braces is matched there again and again.
\<close>

lemma empty_match_loops:
  "exprLoop (\<lambda>text i. Some 0) transform ''x'' 0 lastIndex result = None"
proof -
  have no: "\<not> (startRe = (\<lambda>text i. Some 0) \<and> buffer = ''x'' \<and> reLastIndex = 0)"
    if "exprLoop startRe tr buffer reLastIndex li res = Some y"
    for startRe tr buffer reLastIndex li res y
    using that
  proof (induction startRe tr buffer reLastIndex li res y
          rule: exprLoop.raw_induct [rotated 1, consumes 1])
    case (1 loop startRe tr buffer reLastIndex li res y)
    note IH = 1(1) and body = 1(2)
    show ?case
    proof
      assume h: "startRe = (\<lambda>text i. Some 0) \<and> buffer = ''x'' \<and> reLastIndex = 0"
      have e: "execFrom startRe buffer reLastIndex = Some (0, 0)"
        using h by (subst execFrom.simps) simp
      have f: "findMatchingBrace buffer 0 = - 1"
        using h by (simp add: findMatchingBrace_def)
      from body have "loop startRe tr buffer 0 li res = Some y"
        by (simp add: e f)
      from IH [OF this] h show False by simp
    qed
  qed
  show ?thesis
  proof (cases "exprLoop (\<lambda>text i. Some 0) transform ''x'' 0 lastIndex result")
    case None
    then show ?thesis .
  next
    case (Some y)
    from no [OF Some] show ?thesis by simp
  qed
qed

subsection \<open>Where the expression-opener pattern ends\<close>

lemma exprTail_brace:
  assumes "exprTail s = Some l"
  shows "0 < l \<and> l \<le> length s \<and> s ! (l - 1) = CHR 0x7B"
proof -
  define w1 where "w1 = takeWhile isSpace s"
  obtain s2 where d1: "dropWhile isSpace s = CHR 0x3D # s2"
    using assms by (auto simp: exprTail_def split: list.splits if_splits)
  define w2 where "w2 = takeWhile isSpace s2"
  obtain s4 where d2: "dropWhile isSpace s2 = CHR 0x7B # s4"
    and l: "l = length w1 + 1 + length w2 + 1"
    using assms d1 by (auto simp: exprTail_def w1_def w2_def split: list.splits if_splits)
  have "s = w1 @ dropWhile isSpace s" by (simp add: w1_def)
  moreover have "s2 = w2 @ dropWhile isSpace s2" by (simp add: w2_def)
  ultimately have s: "s = (w1 @ CHR 0x3D # w2) @ CHR 0x7B # s4"
    using d1 d2 by simp
  have n: "l - 1 = length (w1 @ CHR 0x3D # w2)" using l by simp
  have "s ! (l - 1) = CHR 0x7B"
    unfolding n by (subst s) (rule nth_append_length)
  moreover have "l \<le> length s" by (subst s) (simp add: l)
  ultimately show ?thesis using l by simp
qed

lemma startMatchAt_brace:
  assumes "startMatchAt alts s = Some len"
  shows "0 < len \<and> len \<le> length s \<and> s ! (len - 1) = CHR 0x7B"
proof -
  from assms obtain n where "map_option (\<lambda>k. n + k) (exprTail (drop n s)) = Some len"
    unfolding startMatchAt_def by (blast dest: firstSome_Some)
  then obtain k where k: "exprTail (drop n s) = Some k" and len: "len = n + k" by auto
  from exprTail_brace [OF k]
  have a: "0 < k" and b: "k \<le> length (drop n s)" and c: "drop n s ! (k - 1) = CHR 0x7B"
    by blast+
  from a b have n: "n + k \<le> length s" by simp
  have "s ! (n + (k - 1)) = CHR 0x7B" using c a b by (simp add: nth_drop)
  then show ?thesis using a n len by simp
qed

text \<open>
  Without \<open>useRegex\<close> every match of the expression-opener pattern ends at a brace, so
  the position that the loop takes for the opening brace holds one.
\<close>

lemma builtin_opener_ends_at_brace:
  assumes "\<not> useRegex config" and "newStartRe RegExp config = Inr startRe"
    and "execFrom startRe buffer reLastIndex = Some (index, len)"
  shows "nat (int (index + len) - 1) < length buffer
         \<and> buffer ! nat (int (index + len) - 1) = CHR 0x7B"
proof -
  have sr: "startRe = (\<lambda>text i. startMatchAt (builtinAlternatives config) (drop i text))"
    using assms(1,2) by (simp add: newStartRe_def)
  from execFrom_Some [OF assms(3)]
  have i: "index \<le> length buffer"
    and m: "startMatchAt (builtinAlternatives config) (drop index buffer) = Some len"
    by (simp_all add: sr)
  from startMatchAt_brace [OF m]
  have a: "0 < len" and b: "len \<le> length (drop index buffer)"
    and c: "drop index buffer ! (len - 1) = CHR 0x7B"
    by blast+
  have e: "nat (int (index + len) - 1) = index + (len - 1)" using a by simp
  have "index + (len - 1) < length buffer" using a b i by simp
  moreover have "buffer ! (index + (len - 1)) = CHR 0x7B"
    using c a b i by (simp add: nth_drop)
  ultimately show ?thesis unfolding e by simp
qed

section \<open>The claims\<close>

subsection \<open>C1: round trip\<close>

text \<open>
  C1, as amended. For every class list none of whose tokens starts with the prefix, and
  every prefix without whitespace, removing the prefix after adding it gives back the
  tokens of the class list in their order, joined by single spaces: the class list is
  restored up to its whitespace, and exactly when it was already written that way.
\<close>

theorem token_round_trip:
  assumes "list_all notSpace pfx"
    and "list_all (\<lambda>t. \<not> startsWith t pfx) (tokensOf classString)"
  shows "processClasses (processClasses classString pfx skipList True) pfx [] False
           = joinSp (tokensOf classString)"
proof -
  let ?ts = "tokensOf classString"
  let ?added = "map (rewriteToken pfx (set skipList) True) ?ts"
  have wf: "list_all (\<lambda>t. t \<noteq> [] \<and> list_all notSpace t) ?added"
    using tokensOf_wellformed [of classString] rewriteToken_add_wellformed [OF assms(1)]
    by (fastforce simp: list_all_iff)
  have "processClasses (processClasses classString pfx skipList True) pfx [] False
          = joinSp (map (rewriteToken pfx {} False) (tokensOf (joinSp ?added)))"
    by (simp add: processClasses_tokens)
  also have "tokensOf (joinSp ?added) = ?added"
    using wf by (rule tokensOf_joinSp)
  also have "map (rewriteToken pfx {} False) ?added = ?ts"
    using assms(2) by (simp add: list_all_iff rewriteToken_remove_add map_idI)
  finally show ?thesis .
qed

theorem token_round_trip_witness:
  "list_all notSpace ''app-''
   \<and> list_all (\<lambda>t. \<not> startsWith t ''app-'') (tokensOf ''  foo   bar baz'')
   \<and> processClasses (processClasses ''  foo   bar baz'' ''app-'' [''bar''] True) ''app-'' [] False
       = ''foo bar baz''"
proof -
  have h1: "list_all notSpace ''app-''" by code_simp
  have h2: "list_all (\<lambda>t. \<not> startsWith t ''app-'') (tokensOf ''  foo   bar baz'')"
    by code_simp
  have j: "joinSp (tokensOf ''  foo   bar baz'') = ''foo bar baz''" by code_simp
  from token_round_trip [OF h1 h2, of "[''bar'']"] j h1 h2 show ?thesis by simp
qed

text \<open>
  C1 as stated fails: the tokens \<open>a\<close> and \<open>b\<close> do not start with the prefix, yet adding
  and then removing turns the two spaces between them into one.
\<close>

theorem round_trip_counterexample:
  \<open>tokensOf ''a  b'' = [''a'', ''b'']
   \<and> \<not> startsWith ''a'' (prefix defaultConfig) \<and> \<not> startsWith ''b'' (prefix defaultConfig)
   \<and> roundTrip noRegExp ''<div className="a  b"></div>'' defaultConfig
       = Some (Inr ''<div className="a b"></div>'')
   \<and> ''<div className="a b"></div>'' \<noteq> ''<div className="a  b"></div>''\<close>
proof (intro conjI)
  show "tokensOf ''a  b'' = [''a'', ''b'']" by code_simp
  show "\<not> startsWith ''a'' (prefix defaultConfig)" by code_simp
  show "\<not> startsWith ''b'' (prefix defaultConfig)" by code_simp
  show \<open>roundTrip noRegExp ''<div className="a  b"></div>'' defaultConfig
          = Some (Inr ''<div className="a b"></div>'')\<close>
    by code_simp
  show \<open>''<div className="a b"></div>'' \<noteq> ''<div className="a  b"></div>''\<close>
    by simp
qed

subsection \<open>C2: adding twice\<close>

text \<open>
  C2. Running the add operation a second time should change nothing. The code does not
  keep to this: \<^verbatim>\<open>match.replace(classes, processedClasses)\<close> replaces the first
  occurrence of the class list in the matched text, which here lies in the attribute
  name, so each run puts one more prefix in front of the attribute name.
\<close>

theorem addPrefix_twice_differs:
  \<open>snd (addPrefixToClasses noRegExp ''<Button iconClassName="icon" />'' defaultConfig)
     = Some (Inr ''<Button app-iconClassName="icon" />'')
   \<and> snd (addPrefixToClasses noRegExp ''<Button app-iconClassName="icon" />'' defaultConfig)
     = Some (Inr ''<Button app-app-iconClassName="icon" />'')\<close>
proof (intro conjI)
  show \<open>snd (addPrefixToClasses noRegExp ''<Button iconClassName="icon" />'' defaultConfig)
     = Some (Inr ''<Button app-iconClassName="icon" />'')\<close>
    by code_simp
  show \<open>snd (addPrefixToClasses noRegExp ''<Button app-iconClassName="icon" />'' defaultConfig)
     = Some (Inr ''<Button app-app-iconClassName="icon" />'')\<close>
    by code_simp
qed

subsection \<open>C3: the Token Processor and its reference definition\<close>

text \<open>
  C3. The Token Processor computes the reference definition: for every class string,
  prefix, skip list and direction, \<open>processClasses\<close> returns what the reference returns
  with the skip list read as a set (exact membership). In particular, when adding, a
  token that is an entry of the skip list is returned as it is, and a token that is not
  an entry (whether or not it contains one or is part of one) and does not start with
  the prefix gets the prefix.
\<close>

theorem processClasses_refines_spec:
  "processClasses classString pfx skipList adding
     = tokenProcessorSpec classString pfx (set skipList) adding
   \<and> (t \<noteq> [] \<and> list_all notSpace t \<and> t \<in> set skipList
        \<longrightarrow> processClasses t pfx skipList True = t)
   \<and> (t \<noteq> [] \<and> list_all notSpace t \<and> t \<notin> set skipList \<and> \<not> startsWith t pfx
        \<longrightarrow> processClasses t pfx skipList True = pfx @ t)"
proof (intro conjI impI)
  show "processClasses classString pfx skipList adding
     = tokenProcessorSpec classString pfx (set skipList) adding"
    by (simp add: processClasses_tokens tokenProcessorSpec_def)
next
  assume a: "t \<noteq> [] \<and> list_all notSpace t \<and> t \<in> set skipList"
  then have "tokensOf t = [t]"
    using tokensOf_word [of t "[]"] by (simp add: tokensOf_Nil)
  with a show "processClasses t pfx skipList True = t"
    by (simp add: processClasses_tokens rewriteToken_def)
next
  assume a: "t \<noteq> [] \<and> list_all notSpace t \<and> t \<notin> set skipList \<and> \<not> startsWith t pfx"
  then have "tokensOf t = [t]"
    using tokensOf_word [of t "[]"] by (simp add: tokensOf_Nil)
  with a show "processClasses t pfx skipList True = pfx @ t"
    by (simp add: processClasses_tokens rewriteToken_def)
qed

theorem processClasses_refines_spec_witness:
  "processClasses ''  card  hidden hidden-sm hid  app-x '' ''app-'' [''hidden''] True
     = ''app-card hidden app-hidden-sm app-hid app-x''
   \<and> tokenProcessorSpec ''  card  hidden hidden-sm hid  app-x '' ''app-'' (set [''hidden'']) True
     = ''app-card hidden app-hidden-sm app-hid app-x''
   \<and> processClasses ''hidden-sm'' ''app-'' [''hidden''] True = ''app-hidden-sm''"
proof -
  note r = processClasses_refines_spec [of "''  card  hidden hidden-sm hid  app-x ''" "''app-''"
      "[''hidden'']" True "''hidden-sm''"]
  have v: "processClasses ''  card  hidden hidden-sm hid  app-x '' ''app-'' [''hidden''] True
          = ''app-card hidden app-hidden-sm app-hid app-x''"
    by code_simp
  have h: "''hidden-sm'' \<noteq> [] \<and> list_all notSpace ''hidden-sm''
             \<and> ''hidden-sm'' \<notin> set [''hidden''] \<and> \<not> startsWith ''hidden-sm'' ''app-''"
    by code_simp
  from r h have "processClasses ''hidden-sm'' ''app-'' [''hidden''] True = ''app-'' @ ''hidden-sm''"
    by blast
  moreover from r v
  have "tokenProcessorSpec ''  card  hidden hidden-sm hid  app-x '' ''app-'' (set [''hidden'']) True
          = ''app-card hidden app-hidden-sm app-hid app-x''"
    by simp
  ultimately show ?thesis using v by simp
qed

subsection \<open>C4: the direct-value pass and the text around the class list\<close>

text \<open>
  C4. Only the captured class list of a matched attribute should change. The code does
  not keep to this: the class list \<open>class\<close> occurs first in the attribute name
  \<open>className\<close>, and that occurrence is the one replaced.
\<close>

theorem direct_pass_rewrites_attribute_name:
  \<open>directMatchAt (litRx ''className'') ''className="class"></div>'' = Some (17, ''class'')
   \<and> directReplacer ''app-'' [] True ''className="class"'' ''class'' = ''app-className="class"''
   \<and> snd (addPrefixToClasses noRegExp ''<div className="class"></div>'' defaultConfig)
       = Some (Inr ''<div app-className="class"></div>'')\<close>
proof (intro conjI)
  show \<open>directMatchAt (litRx ''className'') ''className="class"></div>'' = Some (17, ''class'')\<close>
    by code_simp
  show \<open>directReplacer ''app-'' [] True ''className="class"'' ''class''
          = ''app-className="class"''\<close>
    by code_simp
  show \<open>snd (addPrefixToClasses noRegExp ''<div className="class"></div>'' defaultConfig)
       = Some (Inr ''<div app-className="class"></div>'')\<close>
    by code_simp
qed

subsection \<open>C5: template literals\<close>

text \<open>
  C5, as amended. In the expression-value pass the Quoted-String Scanner copies a
  template literal unchanged, whatever the replacer does: when it meets a backtick
  outside a template, the output grows by the backtick, the span and the closing
  backtick, and scanning goes on after it; a template that is never closed is copied to
  the end of the input, also when a lone backslash ends it.
\<close>

theorem template_span_copied:
  assumes "templateSpan t"
  shows "rqLoop replacer out False (BT # t @ BT # post)
           = rqLoop replacer (out @ BT # t @ [BT]) False post
         \<and> replaceQuotedStringsIgnoringTemplates (BT # t @ BT # post) replacer
           = BT # t @ BT # replaceQuotedStringsIgnoringTemplates post replacer
         \<and> replaceQuotedStringsIgnoringTemplates (BT # t) replacer = BT # t
         \<and> replaceQuotedStringsIgnoringTemplates (BT # t @ [BS]) replacer = BT # t @ [BS]"
proof -
  have a: "rqLoop f out' False (BT # t @ BT # post) = rqLoop f (out' @ BT # t @ [BT]) False post"
    for f out'
    using rq_template_body [OF assms, of f "out' @ [BT]" post]
    by (simp add: quote_chars_distinct)
  have b: "replaceQuotedStringsIgnoringTemplates (BT # t @ BT # post) replacer
             = BT # t @ BT # replaceQuotedStringsIgnoringTemplates post replacer"
    unfolding replaceQuotedStringsIgnoringTemplates_def a
    by (subst rqLoop_out) simp
  have c: "replaceQuotedStringsIgnoringTemplates (BT # t) replacer = BT # t"
    using rq_template_open [OF assms, of replacer "[BT]"]
    by (simp add: replaceQuotedStringsIgnoringTemplates_def quote_chars_distinct)
  have d: "replaceQuotedStringsIgnoringTemplates (BT # t @ [BS]) replacer = BT # t @ [BS]"
    using rq_template_lone_escape [OF assms, of replacer "[BT]"]
    by (simp add: replaceQuotedStringsIgnoringTemplates_def quote_chars_distinct)
  from a b c d show ?thesis by blast
qed

theorem template_span_copied_witness:
  \<open>templateSpan ''btn-${size ? 'lg' : "sm"}''
   \<and> replaceQuotedStringsIgnoringTemplates ''`btn-${size ? 'lg' : "sm"}`, "primary"''
         (exprReplacer defaultConfig True)
       = ''`btn-${size ? 'lg' : "sm"}`, "app-primary"''\<close>
proof -
  have h: \<open>templateSpan ''btn-${size ? 'lg' : "sm"}''\<close> by code_simp
  have e: \<open>replaceQuotedStringsIgnoringTemplates '', "primary"''
              (exprReplacer defaultConfig True) = '', "app-primary"''\<close>
    by code_simp
  have s: \<open>BT # ''btn-${size ? 'lg' : "sm"}'' @ BT # '', "primary"''
             = ''`btn-${size ? 'lg' : "sm"}`, "primary"''\<close>
    by (simp add: BT_def)
  have s': \<open>BT # ''btn-${size ? 'lg' : "sm"}'' @ BT # '', "app-primary"''
             = ''`btn-${size ? 'lg' : "sm"}`, "app-primary"''\<close>
    by (simp add: BT_def)
  from template_span_copied [OF h, of "exprReplacer defaultConfig True"
      "[]" "'', \"primary\"''"]
  have \<open>replaceQuotedStringsIgnoringTemplates (BT # ''btn-${size ? 'lg' : "sm"}'' @ BT # '', "primary"'')
          (exprReplacer defaultConfig True)
        = BT # ''btn-${size ? 'lg' : "sm"}'' @ BT # '', "app-primary"''\<close>
    unfolding e by blast
  then show ?thesis unfolding s s' using h by blast
qed

text \<open>
  C5 as stated fails: the direct-value pass runs over the whole buffer first and takes no
  account of template literals, so an attribute with a quoted value inside a template
  literal of a matched expression value is rewritten.
\<close>

theorem template_span_counterexample:
  \<open>findMatchingBrace ''<div className={f(`className="x"`)}></div>'' 15 = 34
   \<and> snd (addPrefixToClasses noRegExp ''<div className={f(`className="x"`)}></div>'' defaultConfig)
       = Some (Inr ''<div className={f(`className="app-x"`)}></div>'')\<close>
proof (intro conjI)
  show \<open>findMatchingBrace ''<div className={f(`className="x"`)}></div>'' 15 = 34\<close>
    by code_simp
  show \<open>snd (addPrefixToClasses noRegExp ''<div className={f(`className="x"`)}></div>''
               defaultConfig)
       = Some (Inr ''<div className={f(`className="app-x"`)}></div>'')\<close>
    by code_simp
qed

subsection \<open>C6: the Brace Matcher and its reference definition\<close>

text \<open>
  C6. For every text and every index of an opening brace in it, \<open>findMatchingBrace\<close>
  returns the position given by the reference definition (the first position after the
  opening brace where the depth, counted outside strings and template literals and with
  escapes consumed, is back at 0), and \<open>-1\<close> exactly when there is no such position,
  that is, when the text ends before the depth is back at 0.
\<close>

theorem findMatchingBrace_refines:
  assumes "openIndex < length text" and "text ! openIndex = CHR 0x7B"
  shows "findMatchingBrace text openIndex
           = (case matchingClose text openIndex of Some j \<Rightarrow> int j | None \<Rightarrow> - 1)
         \<and> (findMatchingBrace text openIndex = - 1) = (matchingClose text openIndex = None)"
proof -
  have d: "drop openIndex text = CHR 0x7B # drop (Suc openIndex) text"
    using Cons_nth_drop_Suc [OF assms(1)] assms(2) by simp
  have "findMatchingBrace text openIndex
          = fmbLoop (drop (Suc openIndex) text) (openIndex + 1) 1
              (Normal = InSingle) (Normal = InDouble) (Normal = InTemplate)"
    by (simp add: findMatchingBrace_def d brace_chars_distinct)
  also have "\<dots> = posOr (openIndex + 1) (firstZero (Normal, False, 1) (drop (Suc openIndex) text))"
    by (rule fmbLoop_firstZero) simp
  finally have e: "findMatchingBrace text openIndex
           = (case matchingClose text openIndex of Some j \<Rightarrow> int j | None \<Rightarrow> - 1)"
    by (simp add: matchingClose_firstZero [OF assms] posOr_def split: option.splits)
  then have "(findMatchingBrace text openIndex = - 1) = (matchingClose text openIndex = None)"
    by (simp split: option.splits)
  with e show ?thesis by blast
qed

theorem findMatchingBrace_refines_witness:
  \<open>0 < length ''{f('}', `{`, {a: 1})} z'' \<and> ''{f('}', `{`, {a: 1})} z'' ! 0 = CHR 0x7B
   \<and> matchingClose ''{f('}', `{`, {a: 1})} z'' 0 = Some 20
   \<and> findMatchingBrace ''{f('}', `{`, {a: 1})} z'' 0 = 20\<close>
proof -
  have h1: \<open>0 < length ''{f('}', `{`, {a: 1})} z''\<close> by simp
  have h2: \<open>''{f('}', `{`, {a: 1})} z'' ! 0 = CHR 0x7B\<close> by simp
  have m: \<open>matchingClose ''{f('}', `{`, {a: 1})} z'' 0 = Some 20\<close> by code_simp
  from findMatchingBrace_refines [OF h1 h2] m
  have \<open>findMatchingBrace ''{f('}', `{`, {a: 1})} z'' 0 = 20\<close> by simp
  with h1 h2 m show ?thesis by blast
qed

subsection \<open>C7: unterminated strings\<close>




subsection \<open>C8: custom wildcard attributes in the direct-value pass\<close>

text \<open>
  C8, as amended. In a configuration without \<open>useRegex\<close>, the pattern of every custom
  wildcard is among the direct-value patterns, and \<open>removePrefixFromClasses\<close> applies the
  same patterns as \<open>addPrefixToClasses\<close>: the one for \<open>className\<close> and then one for each
  distinct wildcard. In both modes, at an attribute whose name ends in \<open>ClassName\<close> and
  whose value is in double quotes, the pattern for \<open>*ClassName\<close> matches the attribute
  with the value as its class list, and the match is replaced by what the replacer
  returns for it.
\<close>

theorem custom_wildcard_matched_in_both_modes:
  assumes "\<not> useRegex config" and "wild \<in> set (customNames config)"
    and "list_all isNameChar x" and "list_all notQuote v"
  shows \<open>Builtin (wildcardRx wild) \<in> set (fst (buildPatterns RegExp config))
     \<and> snd (removePrefixFromClasses RegExp text config)
         = processExpressionAttributeLiterals RegExp
             (foldl (\<lambda>result pattern.
                       replaceAllRx pattern (directReplacer (prefix config) [] False) result)
                text (litRx ''className'' # map wildcardRx (dedupBy id (customNames config))))
             config False
     \<and> replaceAllRx (wildcardRx ''*ClassName'') (directReplacer pfx skipList adding)
           (x @ ''ClassName="'' @ v @ ''"'' @ rest)
         = directReplacer pfx skipList adding (x @ ''ClassName="'' @ v @ ''"'') v
           @ replaceAllRx (wildcardRx ''*ClassName'') (directReplacer pfx skipList adding) rest\<close>
proof (intro conjI)
  have "id ` set (dedupBy id (customNames config)) = id ` set (customNames config)"
    by (rule dedupBy_keys)
  then have "wild \<in> set (dedupBy id (customNames config))" using assms(2) by simp
  then show "Builtin (wildcardRx wild) \<in> set (fst (buildPatterns RegExp config))"
    unfolding buildPatterns_builtin [OF assms(1)] by simp
next
  define L where "L = litRx ''className'' # map wildcardRx (dedupBy id (customNames config))"
  have bp: "buildPatterns RegExp config = (map Builtin L, [])"
    unfolding L_def using assms(1) by (rule buildPatterns_builtin)
  have "snd (removePrefixFromClasses RegExp text config)
         = processExpressionAttributeLiterals RegExp
             (foldl (\<lambda>result pattern.
                       replaceAllRx pattern (directReplacer (prefix config) [] False) result)
                text L)
             config False"
    by (simp add: removePrefixFromClasses_def bp directPass_Builtin)
  then show "snd (removePrefixFromClasses RegExp text config)
         = processExpressionAttributeLiterals RegExp
             (foldl (\<lambda>result pattern.
                       replaceAllRx pattern (directReplacer (prefix config) [] False) result)
                text (litRx ''className'' # map wildcardRx (dedupBy id (customNames config))))
             config False"
    unfolding L_def .
next
  define after where "after = CHR 0x3D # DQ # v @ DQ # rest"
  define s where "s = x @ ''ClassName'' @ after"
  define W where "W = wildcardRx ''*ClassName''"
  define f where "f = directReplacer pfx skipList adding"
  have vt: "valueTail after = Some (length v + 3, v)"
    unfolding after_def using assms(4) by (rule valueTail_quoted)
  have m: "directMatchAt W s = Some (length x + 9 + (length v + 3), v)"
    unfolding W_def s_def using assms(3) vt by (rule ClassName_after)
  obtain c cs where cs: "s = c # cs" by (cases s) (auto simp: s_def)
  have "replaceAllRx W f s
          = f (take (length x + 9 + (length v + 3)) s) v
            @ replaceAllRx W f (drop (length x + 9 + (length v + 3)) s)"
    using m unfolding cs by simp
  moreover define mt where "mt = x @ ''ClassName'' @ CHR 0x3D # DQ # v @ [DQ]"
  have s_eq: "s = mt @ rest" by (simp add: s_def after_def mt_def)
  have len: "length x + 9 + (length v + 3) = length mt" by (simp add: mt_def)
  have "take (length x + 9 + (length v + 3)) s = mt" unfolding len s_eq by simp
  moreover have "drop (length x + 9 + (length v + 3)) s = rest" unfolding len s_eq by simp
  ultimately have "replaceAllRx W f s = f mt v @ replaceAllRx W f rest"
    by simp
  then show \<open>replaceAllRx (wildcardRx ''*ClassName'') (directReplacer pfx skipList adding)
           (x @ ''ClassName="'' @ v @ ''"'' @ rest)
         = directReplacer pfx skipList adding (x @ ''ClassName="'' @ v @ ''"'') v
           @ replaceAllRx (wildcardRx ''*ClassName'') (directReplacer pfx skipList adding) rest\<close>
    by (simp add: s_def after_def W_def f_def mt_def DQ_def)
qed

theorem custom_wildcard_matched_witness:
  \<open>\<not> useRegex defaultConfig \<and> ''*ClassName'' \<in> set (customNames defaultConfig)
   \<and> list_all isNameChar ''test'' \<and> list_all notQuote ''app-x''
   \<and> Builtin (wildcardRx ''*ClassName'') \<in> set (fst (buildPatterns noRegExp defaultConfig))
   \<and> replaceAllRx (wildcardRx ''*ClassName'') (directReplacer ''app-'' [] False)
        ''testClassName="app-x"></div>'' = ''testClassName="x"></div>''\<close>
proof -
  have h1: "\<not> useRegex defaultConfig" by (simp add: defaultConfig_def)
  have h2: "''*ClassName'' \<in> set (customNames defaultConfig)"
    by (simp add: customNames_def defaultConfig_def)
  have h3: "list_all isNameChar ''test''" by (simp add: isNameChar_def)
  have h4: "list_all notQuote ''app-x''"
    by (simp add: notQuote_def isQuote_def DQ_def SQ_def BT_def)
  note r = custom_wildcard_matched_in_both_modes [OF h1 h2 h3 h4,
      of noRegExp "[]" "''app-''" "[]" False "''></div>''"]
  have e1: \<open>directReplacer ''app-'' [] False (''test'' @ ''ClassName="'' @ ''app-x'' @ ''"'') ''app-x''
              = ''testClassName="x"''\<close>
    by code_simp
  have e2: \<open>replaceAllRx (wildcardRx ''*ClassName'') (directReplacer ''app-'' [] False) ''></div>''
              = ''></div>''\<close>
    by code_simp
  have e3: \<open>''test'' @ ''ClassName="'' @ ''app-x'' @ ''"'' @ ''></div>''
              = ''testClassName="app-x"></div>''\<close>
    by simp
  from r have "replaceAllRx (wildcardRx ''*ClassName'') (directReplacer ''app-'' [] False)
                 (''test'' @ ''ClassName=\"'' @ ''app-x'' @ ''\"'' @ ''></div>'')
               = ''testClassName=\"x\"'' @ ''></div>''"
    unfolding e1 e2 by blast
  then have \<open>replaceAllRx (wildcardRx ''*ClassName'') (directReplacer ''app-'' [] False)
        ''testClassName="app-x"></div>'' = ''testClassName="x"></div>''\<close>
    unfolding e3 by simp
  with h1 h2 h3 h4 r show ?thesis by blast
qed

text \<open>
  C8 as stated fails: removing rewrites the direct-quoted value of an attribute matched
  by the custom wildcard.
\<close>

theorem remove_custom_attribute_counterexample:
  \<open>\<not> useRegex defaultConfig
   \<and> snd (removePrefixFromClasses noRegExp ''<div testClassName="app-x"></div>'' defaultConfig)
       = Some (Inr ''<div testClassName="x"></div>'')\<close>
proof (intro conjI)
  show "\<not> useRegex defaultConfig" by (simp add: defaultConfig_def)
  show \<open>snd (removePrefixFromClasses noRegExp ''<div testClassName="app-x"></div>'' defaultConfig)
       = Some (Inr ''<div testClassName="x"></div>'')\<close>
    by code_simp
qed

subsection \<open>C9: a fragment that does not compile\<close>

text \<open>
  C9. With \<open>useRegex\<close> set, a fragment that does not compile should be dropped with a
  warning while both passes complete. The code does not keep to this. \<open>buildPatterns\<close>
  compiles the direct-value pattern of each fragment inside a \<^verbatim>\<open>try\<close>, shows the
  warning and leaves the pattern out; the expression-value pass joins every non-empty
  fragment into one alternation and compiles that outside any \<^verbatim>\<open>try\<close>. When the
  constructor rejects the joined source text, as it does for the fragment \<^verbatim>\<open>(\<close>, the
  run ends with an error, in both modes and for every buffer: every fragment whose own
  pattern is rejected has its warning, and then the run ends with the syntax error of
  the alternation, unless the direct-value pass has ended it before with a type error
  (a compiled pattern whose first group took no part in a match). When the pattern of
  every fragment is rejected, the error is the syntax error.
\<close>

theorem invalid_fragment_aborts:
  assumes "useRegex config" and "RegExp (startReSource config) = None"
  shows "(\<forall>fragment \<in> set (customRegexPatterns config).
            RegExp (directSource fragment) = None \<longrightarrow>
              (''ClassPrefixer: Invalid regex pattern: '' @ fragment)
                 \<in> set (fst (addPrefixToClasses RegExp buffer config))
              \<and> (''ClassPrefixer: Invalid regex pattern: '' @ fragment)
                 \<in> set (fst (removePrefixFromClasses RegExp buffer config)))
         \<and> (snd (addPrefixToClasses RegExp buffer config)
               = Some (Inl (SyntaxError (startReSource config)))
             \<or> snd (addPrefixToClasses RegExp buffer config) = Some (Inl TypeError))
         \<and> (snd (removePrefixFromClasses RegExp buffer config)
               = Some (Inl (SyntaxError (startReSource config)))
             \<or> snd (removePrefixFromClasses RegExp buffer config) = Some (Inl TypeError))
         \<and> (list_all (\<lambda>fragment. RegExp (directSource fragment) = None)
                (customRegexPatterns config) \<longrightarrow>
              snd (addPrefixToClasses RegExp buffer config)
                = Some (Inl (SyntaxError (startReSource config)))
              \<and> snd (removePrefixFromClasses RegExp buffer config)
                = Some (Inl (SyntaxError (startReSource config))))"
proof -
  define patterns where "patterns = fst (buildPatterns RegExp config)"
  define warnings where "warnings = snd (buildPatterns RegExp config)"
  define E :: "(error + string) option" where
    "E = Some (Inl (SyntaxError (startReSource config)))"
  have bp: "buildPatterns RegExp config = (patterns, warnings)"
    by (simp add: patterns_def warnings_def)
  have e: "processExpressionAttributeLiterals RegExp s config adding = E" for s adding
    unfolding E_def using assms by (rule startRe_rejected)
  have w: "(''ClassPrefixer: Invalid regex pattern: '' @ fragment) \<in> set warnings"
    if "fragment \<in> set (customRegexPatterns config)" and "RegExp (directSource fragment) = None"
    for fragment
    using that assms(1) by (simp add: warnings_def buildPatterns_def)
  have fa: "fst (addPrefixToClasses RegExp buffer config) = warnings"
    by (simp add: addPrefixToClasses_def bp)
  have fr: "fst (removePrefixFromClasses RegExp buffer config) = warnings"
    by (simp add: removePrefixFromClasses_def bp)
  have sa: "snd (addPrefixToClasses RegExp buffer config)
              = (case directPass (prefix config) (skipClasses config) True patterns buffer of
                   Inl e \<Rightarrow> Some (Inl e) | Inr result \<Rightarrow> E)"
    by (simp add: addPrefixToClasses_def bp e split: sum.splits)
  have sr: "snd (removePrefixFromClasses RegExp buffer config)
              = (case directPass (prefix config) [] False patterns buffer of
                   Inl e \<Rightarrow> Some (Inl e) | Inr result \<Rightarrow> E)"
    by (simp add: removePrefixFromClasses_def bp e split: sum.splits)
  have d: "(case directPass pfx skip adding patterns buffer of
              Inl e \<Rightarrow> Some (Inl e) | Inr result \<Rightarrow> E) = E
           \<or> (case directPass pfx skip adding patterns buffer of
                 Inl e \<Rightarrow> Some (Inl e) | Inr result \<Rightarrow> E) = Some (Inl TypeError)" for pfx skip adding
    using directPass_errors [of pfx skip adding patterns buffer]
    by (cases "directPass pfx skip adding patterns buffer") auto
  have all: "(case directPass pfx skip adding patterns buffer of
                Inl e \<Rightarrow> Some (Inl e) | Inr result \<Rightarrow> E) = E"
    if "list_all (\<lambda>fragment. RegExp (directSource fragment) = None) (customRegexPatterns config)"
    for pfx skip adding
  proof -
    have "List.map_filter (\<lambda>fragment. RegExp (directSource fragment))
            (customRegexPatterns config) = []"
      using that by (rule map_filter_all_None)
    then have "patterns = [Builtin (litRx ''className'')]"
      using assms(1) by (simp add: patterns_def buildPatterns_def)
    then show ?thesis by simp
  qed
  show ?thesis
    unfolding fa fr sa sr E_def [symmetric] using w d all by blast
qed

theorem invalid_fragment_aborts_witness:
  \<open>useRegex (defaultConfig\<lparr>useRegex := True, customRegexPatterns := [''('']\<rparr>)
   \<and> startReSource (defaultConfig\<lparr>useRegex := True, customRegexPatterns := [''('']\<rparr>)
       = ''(?:className|()'' @ [BS] @ ''s*='' @ [BS] @ ''s*'' @ [BS] @ ''{''
   \<and> noRegExp (startReSource (defaultConfig\<lparr>useRegex := True, customRegexPatterns := [''('']\<rparr>))
       = None
   \<and> ''('' \<in> set (customRegexPatterns (defaultConfig\<lparr>useRegex := True, customRegexPatterns := [''('']\<rparr>))
   \<and> noRegExp (directSource ''('') = None
   \<and> list_all (\<lambda>fragment. noRegExp (directSource fragment) = None)
        (customRegexPatterns (defaultConfig\<lparr>useRegex := True, customRegexPatterns := [''('']\<rparr>))
   \<and> ''ClassPrefixer: Invalid regex pattern: (''
       \<in> set (fst (addPrefixToClasses noRegExp ''<div className="a b"></div>''
                     (defaultConfig\<lparr>useRegex := True, customRegexPatterns := [''('']\<rparr>)))
   \<and> snd (addPrefixToClasses noRegExp ''<div className="a b"></div>''
            (defaultConfig\<lparr>useRegex := True, customRegexPatterns := [''('']\<rparr>))
       = Some (Inl (SyntaxError (''(?:className|()'' @ [BS] @ ''s*='' @ [BS] @ ''s*'' @ [BS] @ ''{'')))
   \<and> snd (removePrefixFromClasses noRegExp ''<div className="a b"></div>''
            (defaultConfig\<lparr>useRegex := True, customRegexPatterns := [''('']\<rparr>))
       = Some (Inl (SyntaxError (''(?:className|()'' @ [BS] @ ''s*='' @ [BS] @ ''s*'' @ [BS] @ ''{'')))\<close>
proof -
  define c where "c = defaultConfig\<lparr>useRegex := True, customRegexPatterns := [''('']\<rparr>"
  define w :: string where "w = ''ClassPrefixer: Invalid regex pattern: (''"
  have h1: "useRegex c" by (simp add: c_def)
  have s: "startReSource c = ''(?:className|()'' @ [BS] @ ''s*='' @ [BS] @ ''s*'' @ [BS] @ ''{''"
    unfolding c_def by code_simp
  have h2: "noRegExp (startReSource c) = None" by (simp add: noRegExp_def)
  have h3: "''('' \<in> set (customRegexPatterns c)" by (simp add: c_def)
  have h4: "noRegExp (directSource ''('') = None" by (simp add: noRegExp_def)
  have h5: "list_all (\<lambda>fragment. noRegExp (directSource fragment) = None) (customRegexPatterns c)"
    by (simp add: noRegExp_def c_def)
  have weq: "''ClassPrefixer: Invalid regex pattern: '' @ ''('' = w" by (simp add: w_def)
  note t = invalid_fragment_aborts [where config = c and RegExp = noRegExp
      and buffer = "''<div className=\"a b\"></div>''", OF h1 h2]
  from t h3 h4
  have a: "w \<in> set (fst (addPrefixToClasses noRegExp ''<div className=\"a b\"></div>'' c))"
    unfolding weq [symmetric] by blast
  from t h5
  have b: "snd (addPrefixToClasses noRegExp ''<div className=\"a b\"></div>'' c)
             = Some (Inl (SyntaxError (startReSource c)))"
    and b': "snd (removePrefixFromClasses noRegExp ''<div className=\"a b\"></div>'' c)
             = Some (Inl (SyntaxError (startReSource c)))"
    by blast+
  from b have b2: "snd (addPrefixToClasses noRegExp ''<div className=\"a b\"></div>'' c)
      = Some (Inl (SyntaxError (''(?:className|()'' @ [BS] @ ''s*='' @ [BS] @ ''s*'' @ [BS] @ ''{'')))"
    unfolding s .
  from b' have b3: "snd (removePrefixFromClasses noRegExp ''<div className=\"a b\"></div>'' c)
      = Some (Inl (SyntaxError (''(?:className|()'' @ [BS] @ ''s*='' @ [BS] @ ''s*'' @ [BS] @ ''{'')))"
    unfolding s .
  from h1 s h2 h3 h4 h5 a b2 b3 show ?thesis unfolding c_def w_def by blast
qed

subsection \<open>C10: the empty class list\<close>

text \<open>
  C10, as amended. For every prefix, skip list and direction, the replacement made for
  a match whose class list is the empty string is the match itself: the Token Processor
  maps the empty string to the empty string; the function that rewrites a match returns
  the match when the class list is empty, for a pattern of the code's own and for a
  compiled one; so a pattern of the direct-value pass copies a matched attribute with an
  empty value, such as \<open>className=""\<close>, and goes on after it; and the scanner of the
  expression-value pass copies an empty quoted string.
\<close>

theorem empty_value_unchanged:
  \<open>processClasses [] pfx skipList adding = []
   \<and> directReplacer pfx skipList adding match [] = match
   \<and> compiledReplacer pfx skipList adding match (Some []) = Inr match
   \<and> (directMatchAt rx (c # cs) = Some (len, [])
        \<longrightarrow> replaceAllRx rx (directReplacer pfx skipList adding) (c # cs)
            = take len (c # cs)
              @ replaceAllRx rx (directReplacer pfx skipList adding) (drop len (c # cs)))
   \<and> replaceAllRx (litRx ''className'') (directReplacer pfx skipList adding)
        (''className=""'' @ rest)
       = ''className=""'' @ replaceAllRx (litRx ''className'') (directReplacer pfx skipList adding) rest
   \<and> (q = DQ \<or> q = SQ
        \<longrightarrow> replaceQuotedStringsIgnoringTemplates (q # q # rest) (exprReplacer config adding)
            = q # q # replaceQuotedStringsIgnoringTemplates rest (exprReplacer config adding))\<close>
proof (intro conjI impI)
  show "processClasses [] pfx skipList adding = []" by (rule processClasses_Nil)
  show "directReplacer pfx skipList adding match [] = match" by (rule directReplacer_Nil)
  show "compiledReplacer pfx skipList adding match (Some []) = Inr match"
    by (simp add: compiledReplacer_def directReplacer_Nil)
  show "replaceAllRx rx (directReplacer pfx skipList adding) (c # cs)
            = take len (c # cs)
              @ replaceAllRx rx (directReplacer pfx skipList adding) (drop len (c # cs))"
    if "directMatchAt rx (c # cs) = Some (len, [])"
    using that by (simp add: directReplacer_Nil)
  have m: \<open>directMatchAt (litRx ''className'') (''className=""'' @ rest) = Some (12, [])\<close>
    by (simp add: directMatchAt_def litRx_def startsWith_def valueTail_def isSpace_def
          isQuote_def notQuote_def DQ_def)
  show \<open>replaceAllRx (litRx ''className'') (directReplacer pfx skipList adding)
        (''className=""'' @ rest)
       = ''className=""'' @ replaceAllRx (litRx ''className'') (directReplacer pfx skipList adding) rest\<close>
    using m by (simp add: directReplacer_Nil)
  show "replaceQuotedStringsIgnoringTemplates (q # q # rest) (exprReplacer config adding)
            = q # q # replaceQuotedStringsIgnoringTemplates rest (exprReplacer config adding)"
    if "q = DQ \<or> q = SQ"
  proof -
    have nb: "q \<noteq> BT" "q \<noteq> BS" using that by (auto simp: quote_chars_distinct)
    let ?f = "exprReplacer config adding"
    have "rqLoop ?f [] False (q # q # rest) = rqLoop ?f [q, q] False rest"
      using that nb by (simp add: exprReplacer_def processClasses_Nil)
    also have "\<dots> = [q, q] @ rqLoop ?f [] False rest" by (rule rqLoop_out)
    finally show ?thesis by (simp add: replaceQuotedStringsIgnoringTemplates_def)
  qed
qed

theorem empty_value_unchanged_witness:
  \<open>directMatchAt (litRx ''className'') ''className=""></div>'' = Some (12, [])
   \<and> replaceAllRx (litRx ''className'') (directReplacer ''app-'' [] True) ''className=""></div>''
       = ''className=""></div>''
   \<and> (DQ = DQ \<or> DQ = SQ)
   \<and> replaceQuotedStringsIgnoringTemplates (DQ # DQ # '' + x'')
        (exprReplacer defaultConfig True) = DQ # DQ # '' + x''
   \<and> snd (addPrefixToClasses noRegExp ''<div className=""></div>'' defaultConfig)
       = Some (Inr ''<div className=""></div>'')
   \<and> snd (removePrefixFromClasses noRegExp ''<div className=""></div>'' defaultConfig)
       = Some (Inr ''<div className=""></div>'')\<close>
proof -
  have m: \<open>directMatchAt (litRx ''className'') (CHR ''c'' # ''lassName=""></div>'') = Some (12, [])\<close>
    by code_simp
  have r: \<open>replaceAllRx (litRx ''className'') (directReplacer ''app-'' [] True) ''></div>''
             = ''></div>''\<close>
    by code_simp
  have q: "DQ = DQ \<or> DQ = SQ" by simp
  have x: \<open>replaceQuotedStringsIgnoringTemplates '' + x''
        (exprReplacer defaultConfig True) = '' + x''\<close>
    by code_simp
  have b: \<open>snd (removePrefixFromClasses noRegExp ''<div className=""></div>'' defaultConfig)
       = Some (Inr ''<div className=""></div>'')\<close>
    by code_simp
  have b': \<open>snd (addPrefixToClasses noRegExp ''<div className=""></div>'' defaultConfig)
       = Some (Inr ''<div className=""></div>'')\<close>
    by code_simp
  note t = empty_value_unchanged [where pfx = "''app-''" and skipList = "[]" and adding = True
      and match = "[]" and rx = "litRx ''className''" and c = "CHR ''c''"
      and cs = "''lassName=\"\"></div>''" and len = 12 and rest = "'' + x''" and q = DQ
      and config = defaultConfig]
  from t m have \<open>replaceAllRx (litRx ''className'') (directReplacer ''app-'' [] True)
                   (CHR ''c'' # ''lassName=""></div>'')
        = take 12 (CHR ''c'' # ''lassName=""></div>'')
          @ replaceAllRx (litRx ''className'') (directReplacer ''app-'' [] True)
              (drop 12 (CHR ''c'' # ''lassName=""></div>''))\<close>
    by blast
  then have a: \<open>replaceAllRx (litRx ''className'') (directReplacer ''app-'' [] True)
                   ''className=""></div>'' = ''className=""></div>''\<close>
    by (simp add: r del: replaceAllRx.simps)
  from t q have \<open>replaceQuotedStringsIgnoringTemplates (DQ # DQ # '' + x'')
        (exprReplacer defaultConfig True)
      = DQ # DQ # replaceQuotedStringsIgnoringTemplates '' + x''
                    (exprReplacer defaultConfig True)\<close>
    by blast
  then have c: \<open>replaceQuotedStringsIgnoringTemplates (DQ # DQ # '' + x'')
        (exprReplacer defaultConfig True) = DQ # DQ # '' + x''\<close>
    by (simp only: x)
  from m a q c b b' show ?thesis by blast
qed

text \<open>
  C10 as stated fails: the patterns of the direct-value pass are applied one after the
  other to the whole text, and a later pattern rewrites an occurrence with an empty value
  that an earlier one has copied, when the occurrence lies in what the later one takes
  for a class list. Here \<open>className=""\<close> is matched and copied by the pattern for
  \<open>className\<close>; the pattern for \<open>*ClassName\<close> then matches from \<open>fooClassName\<close> up to
  the first double quote, with the class list \<open>className=\<close>, from which the prefix
  \<open>cl\<close> is removed.
\<close>

theorem empty_value_counterexample:
  \<open>replaceAllRx (litRx ''className'') (directReplacer ''cl'' [] False)
       ''<X fooClassName='className=""' />''
     = ''<X fooClassName='className=""' />''
   \<and> directMatchAt (wildcardRx ''*ClassName'') ''fooClassName='className=""' />''
     = Some (25, ''className='')
   \<and> snd (removePrefixFromClasses noRegExp ''<X fooClassName='className=""' />''
            (defaultConfig\<lparr>prefix := ''cl''\<rparr>))
     = Some (Inr ''<X fooClassName='assName=""' />'')\<close>
proof (intro conjI)
  show \<open>replaceAllRx (litRx ''className'') (directReplacer ''cl'' [] False)
       ''<X fooClassName='className=""' />''
     = ''<X fooClassName='className=""' />''\<close>
    by code_simp
  show \<open>directMatchAt (wildcardRx ''*ClassName'') ''fooClassName='className=""' />''
     = Some (25, ''className='')\<close>
    by code_simp
  show \<open>snd (removePrefixFromClasses noRegExp ''<X fooClassName='className=""' />''
            (defaultConfig\<lparr>prefix := ''cl''\<rparr>))
     = Some (Inr ''<X fooClassName='assName=""' />'')\<close>
    by code_simp
qed

end
